theory Spec2Isabelle
  imports Main "HOL-Library.AList"
begin

section \<open>Python values and exceptions\<close>

text \<open>
  The monitor of \<^verbatim>\<open>fim.py\<close> keeps its baseline as whatever \<^verbatim>\<open>json.load\<close> returned, so the
  baseline is a dynamically typed Python value. A Python \<^verbatim>\<open>dict\<close> is an association list
  in insertion order (its keys are distinct); the keys of a JSON object are strings.

  A \<^verbatim>\<open>float\<close> is finite, as a file's timestamps are, and is kept as the decimal that
  \<^verbatim>\<open>repr\<close> prints for it, the shortest one that reads back as the same float: a sign, the
  digits without trailing zeros as a number, and a power of ten. So \<open>Finite False 17 8\<close>
  is \<^verbatim>\<open>1700000000.0\<close>, and \<open>Finite True 0 0\<close> is \<^verbatim>\<open>-0.0\<close>. The program only stores
  and prints the two timestamps.
\<close>

datatype pyfloat = Finite bool nat int

text \<open>
  A float has one such decimal: its digits do not end in a zero, and zero has the power
  0. A term that fails \<open>float_ok\<close> is the decimal of no float.
\<close>

fun float_ok :: "pyfloat \<Rightarrow> bool" where
  "float_ok (Finite neg m e) = (if m = 0 then e = 0 else m mod 10 \<noteq> 0)"

datatype pyval =
    PNone
  | PBool bool
  | PInt int
  | PFloat pyfloat
  | PStr string
  | PList "pyval list"
  | PDict "(string \<times> pyval) list"

text \<open>
  The exception classes the program raises or handles, with the message of the instance.
  \<^verbatim>\<open>IOError\<close> is \<^verbatim>\<open>OSError\<close> in Python 3; \<^verbatim>\<open>KeyboardInterrupt\<close> derives from
  \<^verbatim>\<open>BaseException\<close> only, so \<^verbatim>\<open>except Exception\<close> does not catch it.
\<close>

datatype exc_class =
    FileNotFoundError
  | PermissionError
  | OSError
  | ValueError
  | JSONDecodeError
  | KeyError
  | TypeError
  | AttributeError
  | KeyboardInterrupt

datatype py_exception = Exc exc_class string

fun exc_class_of :: "py_exception \<Rightarrow> exc_class" where
  "exc_class_of (Exc c msg) = c"

fun exc_message :: "py_exception \<Rightarrow> string" where
  "exc_message (Exc c msg) = msg"

fun is_Exception :: "exc_class \<Rightarrow> bool" where
  "is_Exception KeyboardInterrupt = False"
| "is_Exception c = True"

fun is_OSError :: "exc_class \<Rightarrow> bool" where
  "is_OSError FileNotFoundError = True"
| "is_OSError PermissionError = True"
| "is_OSError OSError = True"
| "is_OSError c = False"

fun is_ValueError :: "exc_class \<Rightarrow> bool" where
  "is_ValueError ValueError = True"
| "is_ValueError JSONDecodeError = True"
| "is_ValueError c = False"

text \<open>\<^verbatim>\<open>v[k]\<close> for a string key: a missing key raises, a value that is no dict raises.\<close>

fun subscript :: "pyval \<Rightarrow> string \<Rightarrow> py_exception + pyval" where
  "subscript (PDict kvs) k =
     (case map_of kvs k of None \<Rightarrow> Inl (Exc KeyError k) | Some v \<Rightarrow> Inr v)"
| "subscript v k = Inl (Exc TypeError ''object is not subscriptable with a str'')"

text \<open>\<^verbatim>\<open>len(v)\<close>.\<close>

fun py_len :: "pyval \<Rightarrow> py_exception + nat" where
  "py_len (PDict kvs) = Inr (length kvs)"
| "py_len (PList vs) = Inr (length vs)"
| "py_len (PStr s) = Inr (length s)"
| "py_len v = Inl (Exc TypeError ''object has no len()'')"

section \<open>File records, scan results and changesets\<close>

text \<open>
  The dict built by \<^verbatim>\<open>get_file_info\<close>, with keys \<^verbatim>\<open>hash\<close>, \<^verbatim>\<open>size\<close>, \<^verbatim>\<open>modified\<close>,
  \<^verbatim>\<open>created\<close> (the field names carry a prefix: \<open>size\<close> is a constant of HOL and
  \<open>modified\<close> is a key of the changeset too).
\<close>

record file_info =
  info_hash :: string
  info_size :: int
  info_modified :: pyfloat
  info_created :: pyfloat

type_synonym scan_state = "(string \<times> file_info) list"

definition py_of_info :: "file_info \<Rightarrow> pyval" where
  "py_of_info fi =
     PDict [(''hash'', PStr (info_hash fi)), (''size'', PInt (info_size fi)),
            (''modified'', PFloat (info_modified fi)), (''created'', PFloat (info_created fi))]"

definition py_of_state :: "scan_state \<Rightarrow> pyval" where
  "py_of_state st = PDict (map (\<lambda>(p, fi). (p, py_of_info fi)) st)"

text \<open>The entries of \<^verbatim>\<open>changes['modified']\<close> and \<^verbatim>\<open>changes['added']\<close>.\<close>

record modified_entry =
  mod_file :: string
  old_hash :: pyval
  new_hash :: string
  old_size :: pyval
  new_size :: int

record added_entry =
  add_file :: string
  add_hash :: string
  add_size :: int

record changes =
  modified :: "modified_entry list"
  added :: "added_entry list"
  deleted :: "string list"

definition empty_changes :: changes where
  "empty_changes = \<lparr>modified = [], added = [], deleted = []\<rparr>"

section \<open>Paths\<close>

text \<open>
  \<^verbatim>\<open>os.path.basename\<close> (POSIX): what follows the last separator. \<open>path_join\<close> is the
  relative path of a file below the scanned root, \<^verbatim>\<open>os.path.relpath(os.path.join(root,
  filename), directory)\<close>, from the names of the directories walked and the file name.
\<close>

definition sep :: char where
  "sep = CHR ''/''"

definition basename :: "string \<Rightarrow> string" where
  "basename p = rev (takeWhile (\<lambda>c. c \<noteq> sep) (rev p))"

fun path_join :: "string list \<Rightarrow> string" where
  "path_join [] = []"
| "path_join [x] = x"
| "path_join (x # y # ys) = x @ sep # path_join (y # ys)"

fun split_path :: "string \<Rightarrow> string list" where
  "split_path [] = [[]]"
| "split_path (c # cs) =
     (if c = sep then [] # split_path cs
      else (case split_path cs of [] \<Rightarrow> [[c]] | x # xs \<Rightarrow> (c # x) # xs))"

definition startswith :: "string \<Rightarrow> string \<Rightarrow> bool" where
  "startswith s pre = (take (length pre) s = pre)"

section \<open>The monitor\<close>

record monitor =
  baseline_file :: string
  baseline :: pyval
  monitoring :: bool
  max_file_size :: int
  ignore_files :: "string set"

text \<open>
  \<^verbatim>\<open>__init__\<close>, given the path that \<^verbatim>\<open>_validate_baseline_path\<close> resolved. The log file
  name is always added to the ignore set.
\<close>

definition init_monitor :: "string \<Rightarrow> string list option \<Rightarrow> monitor" where
  "init_monitor resolved_baseline_file ignore_arg =
     \<lparr>baseline_file = resolved_baseline_file,
      baseline = PDict [],
      monitoring = False,
      max_file_size = 500 * 1024 * 1024,
      ignore_files =
        (case ignore_arg of None \<Rightarrow> {} | Some xs \<Rightarrow> (if xs = [] then {} else set xs))
        \<union> {''fim.log''}\<rparr>"

section \<open>The comparison of \<^verbatim>\<open>check_changes\<close>\<close>

text \<open>
  The first loop (lines 290-307), over \<^verbatim>\<open>self.baseline.items()\<close>. An entry of the
  baseline that is no dict, or lacks \<^verbatim>\<open>hash\<close> or \<^verbatim>\<open>size\<close>, raises where Python
  evaluates the subscript. A \<^verbatim>\<open>str\<close> is unequal to every value that is not the same
  \<^verbatim>\<open>str\<close>.
\<close>

fun baseline_loop ::
  "string set \<Rightarrow> scan_state \<Rightarrow> (string \<times> pyval) list \<Rightarrow> changes \<Rightarrow> py_exception + changes"
where
  "baseline_loop ign current_state [] ch = Inr ch"
| "baseline_loop ign current_state ((filepath, baseline_info) # rest) ch =
     (if basename filepath \<in> ign then baseline_loop ign current_state rest ch
      else
        (case map_of current_state filepath of
           Some current_info \<Rightarrow>
             (case subscript baseline_info ''hash'' of
                Inl e \<Rightarrow> Inl e
              | Inr bh \<Rightarrow>
                  if PStr (info_hash current_info) \<noteq> bh then
                    (case subscript baseline_info ''size'' of
                       Inl e \<Rightarrow> Inl e
                     | Inr bs \<Rightarrow>
                         baseline_loop ign current_state rest
                           (ch\<lparr>modified := modified ch @
                              [\<lparr>mod_file = filepath, old_hash = bh,
                                new_hash = info_hash current_info,
                                old_size = bs, new_size = info_size current_info\<rparr>]\<rparr>))
                  else baseline_loop ign current_state rest ch)
         | None \<Rightarrow>
             baseline_loop ign current_state rest (ch\<lparr>deleted := deleted ch @ [filepath]\<rparr>)))"

text \<open>
  The second loop (lines 310-316), over the keys of \<^verbatim>\<open>current_state\<close>;
  \<^verbatim>\<open>current_state[filepath]\<close> is the lookup of the key.
\<close>

fun current_loop ::
  "(string \<times> pyval) list \<Rightarrow> scan_state \<Rightarrow> string list \<Rightarrow> changes \<Rightarrow> changes"
where
  "current_loop bl current_state [] ch = ch"
| "current_loop bl current_state (filepath # rest) ch =
     (if map_of bl filepath = None then
        (case map_of current_state filepath of
           Some ci \<Rightarrow>
             current_loop bl current_state rest
               (ch\<lparr>added := added ch @
                  [\<lparr>add_file = filepath, add_hash = info_hash ci, add_size = info_size ci\<rparr>]\<rparr>)
         | None \<Rightarrow> current_loop bl current_state rest ch)
      else current_loop bl current_state rest ch)"

text \<open>
  Lines 283-318: the body of \<^verbatim>\<open>check_changes\<close> after the scan. \<^verbatim>\<open>.items()\<close> exists on
  a dict only.
\<close>

fun check_changes_compare ::
  "string set \<Rightarrow> pyval \<Rightarrow> scan_state \<Rightarrow> py_exception + changes"
where
  "check_changes_compare ign (PDict bl) current_state =
     (case baseline_loop ign current_state bl empty_changes of
        Inl e \<Rightarrow> Inl e
      | Inr ch \<Rightarrow> Inr (current_loop bl current_state (map fst current_state) ch))"
| "check_changes_compare ign v current_state =
     Inl (Exc AttributeError ''object has no attribute items'')"

section \<open>The file system and the libraries\<close>

text \<open>
  What the operating system answers is data of the model. A file gives the outcome of
  \<^verbatim>\<open>os.stat\<close>, of \<^verbatim>\<open>os.path.getsize\<close> and of opening and reading it to the end; the
  three are independent, since the file may change or vanish between the calls. A
  directory is listable or not, and holds named entries.
\<close>

record stat_info =
  st_size :: int
  st_mtime :: pyfloat
  st_ctime :: pyfloat

record file_node =
  stat_res :: "py_exception + stat_info"
  getsize_res :: "py_exception + int"
  read_res :: "py_exception + string"

datatype fs_node =
    FsFile file_node
  | FsDir bool "(string \<times> fs_node) list"

text \<open>
  \<open>dirs\<close> is what a \<^verbatim>\<open>directory\<close> argument resolves to; \<open>files\<close> is the text of the
  files the baseline store opens by path, \<open>read_denied\<close> the paths without read
  permission, \<open>write_error\<close> the exception that opening a path for writing raises.
\<close>

record world =
  dirs :: "string \<Rightarrow> fs_node option"
  files :: "string \<Rightarrow> string option"
  read_denied :: "string \<Rightarrow> bool"
  write_error :: "string \<Rightarrow> py_exception option"

text \<open>
  The library functions the program calls, as parameters: the digest of \<^verbatim>\<open>hashlib\<close>
  over the bytes read, and the encoder and decoder of \<^verbatim>\<open>json\<close>.
\<close>

record pylib =
  sha256_hexdigest :: "string \<Rightarrow> string"
  json_dump :: "pyval \<Rightarrow> string"
  json_load :: "string \<Rightarrow> py_exception + pyval"

section \<open>Hashing and file records\<close>

text \<open>Lines 77-89: the \<^verbatim>\<open>try\<close> body of \<^verbatim>\<open>calculate_hash\<close>.\<close>

definition calculate_hash_body ::
  "pylib \<Rightarrow> monitor \<Rightarrow> file_node \<Rightarrow> py_exception + string option"
where
  "calculate_hash_body lib m f =
     (case getsize_res f of
        Inl e \<Rightarrow> Inl e
      | Inr file_size \<Rightarrow>
          if file_size > max_file_size m then Inr None
          else
            (case read_res f of
               Inl e \<Rightarrow> Inl e
             | Inr content \<Rightarrow> Inr (Some (sha256_hexdigest lib content))))"

text \<open>Lines 91-102: the handlers, in the order of the source.\<close>

definition calculate_hash ::
  "pylib \<Rightarrow> monitor \<Rightarrow> file_node \<Rightarrow> py_exception + string option"
where
  "calculate_hash lib m f =
     (case calculate_hash_body lib m f of
        Inr r \<Rightarrow> Inr r
      | Inl e \<Rightarrow>
          if exc_class_of e = PermissionError then Inr None
          else if exc_class_of e = FileNotFoundError then Inr None
          else if is_OSError (exc_class_of e) then Inr None
          else if is_Exception (exc_class_of e) then Inr None
          else Inl e)"

definition get_file_info_body ::
  "pylib \<Rightarrow> monitor \<Rightarrow> file_node \<Rightarrow> py_exception + file_info option"
where
  "get_file_info_body lib m f =
     (case stat_res f of
        Inl e \<Rightarrow> Inl e
      | Inr stat_info \<Rightarrow>
          (case calculate_hash lib m f of
             Inl e \<Rightarrow> Inl e
           | Inr None \<Rightarrow> Inr None
           | Inr (Some file_hash) \<Rightarrow>
               Inr (Some \<lparr>info_hash = file_hash, info_size = st_size stat_info,
                          info_modified = st_mtime stat_info,
                          info_created = st_ctime stat_info\<rparr>)))"

definition get_file_info ::
  "pylib \<Rightarrow> monitor \<Rightarrow> file_node \<Rightarrow> py_exception + file_info option"
where
  "get_file_info lib m f =
     (case get_file_info_body lib m f of
        Inr r \<Rightarrow> Inr r
      | Inl e \<Rightarrow>
          if exc_class_of e = FileNotFoundError then Inr None
          else if exc_class_of e = PermissionError then Inr None
          else if is_OSError (exc_class_of e) then Inr None
          else if is_Exception (exc_class_of e) then Inr None
          else Inl e)"

section \<open>The scanner\<close>

definition validate_directory :: "world \<Rightarrow> string \<Rightarrow> py_exception + fs_node" where
  "validate_directory w directory =
     (case dirs w directory of
        None \<Rightarrow> Inl (Exc ValueError (''Directory does not exist: '' @ directory))
      | Some (FsFile f) \<Rightarrow> Inl (Exc ValueError (''Path is not a directory: '' @ directory))
      | Some (FsDir listable entries) \<Rightarrow>
          if \<not> listable then
            Inl (Exc PermissionError (''No read permission for directory: '' @ directory))
          else Inr (FsDir listable entries))"

text \<open>Line 152: the directories \<^verbatim>\<open>os.walk\<close> is left to descend into.\<close>

definition keep_dir :: "string \<Rightarrow> bool" where
  "keep_dir d =
     (\<not> startswith d ''.'' \<and> d \<notin> set [''$RECYCLE.BIN'', ''System Volume Information''])"

fun is_dir :: "fs_node \<Rightarrow> bool" where
  "is_dir (FsDir listable entries) = True"
| "is_dir (FsFile f) = False"

fun walk_files :: "(string \<times> fs_node) list \<Rightarrow> (string \<times> file_node) list" where
  "walk_files [] = []"
| "walk_files ((name, FsFile f) # rest) = (name, f) # walk_files rest"
| "walk_files ((name, FsDir listable entries) # rest) = walk_files rest"

text \<open>
  \<^verbatim>\<open>os.walk\<close>, top down, with the pruning of line 152 applied to \<^verbatim>\<open>dirs\<close> before the
  generator descends: the list of \<^verbatim>\<open>(root, files)\<close> it yields, \<open>rootp\<close> as the names
  of the directories below the scanned one. A directory that cannot be listed yields
  nothing (\<^verbatim>\<open>onerror\<close> is not given).
\<close>

fun os_walk :: "string list \<Rightarrow> fs_node \<Rightarrow> (string list \<times> (string \<times> file_node) list) list"
  and os_walk_dirs ::
    "string list \<Rightarrow> (string \<times> fs_node) list \<Rightarrow> (string list \<times> (string \<times> file_node) list) list"
where
  "os_walk rootp (FsFile f) = []"
| "os_walk rootp (FsDir listable entries) =
     (if listable then (rootp, walk_files entries) # os_walk_dirs rootp entries else [])"
| "os_walk_dirs rootp [] = []"
| "os_walk_dirs rootp ((d, n) # rest) =
     (if is_dir n \<and> keep_dir d then os_walk (rootp @ [d]) n else []) @ os_walk_dirs rootp rest"

text \<open>
  Lines 154-175: the files of one directory. The result is \<^verbatim>\<open>files_data\<close> and the
  exception that left the loop, if one did: \<^verbatim>\<open>except Exception\<close> counts an error and
  continues, anything else leaves.
\<close>

fun scan_files ::
  "pylib \<Rightarrow> monitor \<Rightarrow> string \<Rightarrow> string list \<Rightarrow> (string \<times> file_node) list \<Rightarrow>
   scan_state \<Rightarrow> scan_state \<times> py_exception option"
where
  "scan_files lib m baseline_filename rootp [] files_data = (files_data, None)"
| "scan_files lib m baseline_filename rootp ((filename, f) # rest) files_data =
     (if startswith filename ''.'' \<or> filename = baseline_filename
         \<or> filename \<in> ignore_files m
      then scan_files lib m baseline_filename rootp rest files_data
      else
        (case get_file_info lib m f of
           Inl e \<Rightarrow>
             if is_Exception (exc_class_of e)
             then scan_files lib m baseline_filename rootp rest files_data
             else (files_data, Some e)
         | Inr None \<Rightarrow> scan_files lib m baseline_filename rootp rest files_data
         | Inr (Some file_info) \<Rightarrow>
             if info_hash file_info \<noteq> [] then
               scan_files lib m baseline_filename rootp rest
                 (AList.update (path_join (rootp @ [filename])) file_info files_data)
             else scan_files lib m baseline_filename rootp rest files_data))"

text \<open>Line 150: the loop over what \<^verbatim>\<open>os.walk\<close> yields.\<close>

fun scan_walk ::
  "pylib \<Rightarrow> monitor \<Rightarrow> string \<Rightarrow> (string list \<times> (string \<times> file_node) list) list \<Rightarrow>
   scan_state \<Rightarrow> scan_state \<times> py_exception option"
where
  "scan_walk lib m baseline_filename [] files_data = (files_data, None)"
| "scan_walk lib m baseline_filename ((rootp, fs) # rest) files_data =
     (case scan_files lib m baseline_filename rootp fs files_data of
        (files_data', Some e) \<Rightarrow> (files_data', Some e)
      | (files_data', None) \<Rightarrow> scan_walk lib m baseline_filename rest files_data')"

text \<open>
  \<^verbatim>\<open>scan_directory\<close>: a failed validation returns the empty dict; an interrupt is raised
  again; any other exception of the walk returns what was collected.
\<close>

definition scan_directory ::
  "pylib \<Rightarrow> monitor \<Rightarrow> world \<Rightarrow> string \<Rightarrow> py_exception + scan_state"
where
  "scan_directory lib m w directory =
     (case validate_directory w directory of
        Inl e \<Rightarrow> if is_Exception (exc_class_of e) then Inr [] else Inl e
      | Inr node \<Rightarrow>
          (case scan_walk lib m (basename (baseline_file m)) (os_walk [] node) [] of
             (files_data, None) \<Rightarrow> Inr files_data
           | (files_data, Some e) \<Rightarrow>
               if exc_class_of e = KeyboardInterrupt then Inl e
               else if is_Exception (exc_class_of e) then Inr files_data
               else Inl e))"

text \<open>\<^verbatim>\<open>check_changes\<close>: the scan, the comparison, and the handler of lines 320-322.\<close>

definition check_changes ::
  "pylib \<Rightarrow> monitor \<Rightarrow> world \<Rightarrow> string \<Rightarrow> py_exception + (changes \<times> scan_state)"
where
  "check_changes lib m w directory =
     (case
        (case scan_directory lib m w directory of
           Inl e \<Rightarrow> Inl e
         | Inr current_state \<Rightarrow>
             (case check_changes_compare (ignore_files m) (baseline m) current_state of
                Inl e \<Rightarrow> Inl e
              | Inr ch \<Rightarrow> Inr (ch, current_state)))
      of
        Inr r \<Rightarrow> Inr r
      | Inl e \<Rightarrow> if is_Exception (exc_class_of e) then Inr (empty_changes, []) else Inl e)"

section \<open>The baseline store\<close>

text \<open>\<^verbatim>\<open>open(path, 'r')\<close> and reading the text.\<close>

definition read_text :: "world \<Rightarrow> string \<Rightarrow> py_exception + string" where
  "read_text w path =
     (case files w path of
        None \<Rightarrow> Inl (Exc FileNotFoundError path)
      | Some t \<Rightarrow> if read_denied w path then Inl (Exc PermissionError path) else Inr t)"

text \<open>
  Lines 200-208: the baseline is written with \<^verbatim>\<open>json.dump\<close>, read back with
  \<^verbatim>\<open>json.load\<close>, and the two lengths are compared. The result is the exception raised,
  if any, and the world after the write.
\<close>

definition save_baseline_body ::
  "pylib \<Rightarrow> monitor \<Rightarrow> world \<Rightarrow> (py_exception + unit) \<times> world"
where
  "save_baseline_body lib m w =
     (case write_error w (baseline_file m) of
        Some e \<Rightarrow> (Inl e, w)
      | None \<Rightarrow>
          (let w' = w\<lparr>files := (files w)(baseline_file m \<mapsto> json_dump lib (baseline m))\<rparr> in
           (case read_text w' (baseline_file m) of
              Inl e \<Rightarrow> (Inl e, w')
            | Inr t \<Rightarrow>
                (case json_load lib t of
                   Inl e \<Rightarrow> (Inl e, w')
                 | Inr verification \<Rightarrow>
                     (case py_len verification of
                        Inl e \<Rightarrow> (Inl e, w')
                      | Inr n \<Rightarrow>
                          (case py_len (baseline m) of
                             Inl e \<Rightarrow> (Inl e, w')
                           | Inr k \<Rightarrow>
                               if n \<noteq> k
                               then (Inl (Exc ValueError ''Baseline verification failed''), w')
                               else (Inr (), w')))))))"

text \<open>
  \<^verbatim>\<open>create_baseline\<close>: the success flag, the monitor and the world afterwards. An
  empty scan returns before anything is written; every handler returns \<^verbatim>\<open>False\<close>.
\<close>

definition create_baseline ::
  "pylib \<Rightarrow> monitor \<Rightarrow> world \<Rightarrow> string \<Rightarrow> bool \<times> monitor \<times> world"
where
  "create_baseline lib m w directory =
     (case scan_directory lib m w directory of
        Inl e \<Rightarrow>
          if exc_class_of e = KeyboardInterrupt then (False, m, w) else (False, m, w)
      | Inr st \<Rightarrow>
          (let m' = m\<lparr>baseline := py_of_state st\<rparr> in
           if st = [] then (False, m', w)
           else
             (case save_baseline_body lib m' w of
                (Inr u, w') \<Rightarrow> (True, m', w')
              | (Inl e, w') \<Rightarrow>
                  if is_OSError (exc_class_of e) then (False, m', w')
                  else if exc_class_of e = JSONDecodeError then (False, m', w')
                  else if exc_class_of e = KeyboardInterrupt then (False, m', w')
                  else (False, m', w'))))"

text \<open>Lines 254-259: the validation of the entries, in the order of the dict.\<close>

definition required_keys :: "string set" where
  "required_keys = {''hash'', ''size'', ''modified'', ''created''}"

fun validate_entries :: "(string \<times> pyval) list \<Rightarrow> py_exception + unit" where
  "validate_entries [] = Inr ()"
| "validate_entries ((filepath, PDict entry) # rest) =
     (if required_keys \<subseteq> fst ` set entry then validate_entries rest
      else Inl (Exc ValueError (''Missing required keys for '' @ filepath)))"
| "validate_entries ((filepath, info) # rest) =
     Inl (Exc ValueError (''Invalid entry for '' @ filepath))"

text \<open>Lines 251-259.\<close>

fun validate_baseline :: "pyval \<Rightarrow> py_exception + unit" where
  "validate_baseline (PDict kvs) = validate_entries kvs"
| "validate_baseline v = Inl (Exc ValueError ''Invalid baseline format: expected dictionary'')"

text \<open>
  Lines 236-263: the \<^verbatim>\<open>try\<close> body of \<^verbatim>\<open>load_baseline\<close>. \<^verbatim>\<open>self.baseline\<close> is assigned
  before the validation, so the monitor keeps the parsed value when the validation
  raises. The third component is what \<^verbatim>\<open>logger.error\<close> received.
\<close>

definition load_baseline_body ::
  "pylib \<Rightarrow> monitor \<Rightarrow> world \<Rightarrow> (py_exception + bool) \<times> monitor \<times> string list"
where
  "load_baseline_body lib m w =
     (if files w (baseline_file m) = None then
        (Inr False, m, [''Baseline file not found: '' @ baseline_file m])
      else if read_denied w (baseline_file m) then
        (Inr False, m, [''No read permission for baseline file: '' @ baseline_file m])
      else
        (case read_text w (baseline_file m) of
           Inl e \<Rightarrow> (Inl e, m, [])
         | Inr t \<Rightarrow>
             (case json_load lib t of
                Inl e \<Rightarrow> (Inl e, m, [])
              | Inr v \<Rightarrow>
                  (case validate_baseline v of
                     Inl e \<Rightarrow> (Inl e, m\<lparr>baseline := v\<rparr>, [])
                   | Inr u \<Rightarrow> (Inr True, m\<lparr>baseline := v\<rparr>, [])))))"

text \<open>
  \<^verbatim>\<open>load_baseline\<close> with the handlers of lines 265-276; \<^verbatim>\<open>JSONDecodeError\<close> is a
  \<^verbatim>\<open>ValueError\<close> and is tried first.
\<close>

definition load_baseline ::
  "pylib \<Rightarrow> monitor \<Rightarrow> world \<Rightarrow> py_exception + (bool \<times> monitor \<times> string list)"
where
  "load_baseline lib m w =
     (case load_baseline_body lib m w of
        (Inr ok, m', logged) \<Rightarrow> Inr (ok, m', logged)
      | (Inl e, m', logged) \<Rightarrow>
          if exc_class_of e = JSONDecodeError then
            Inr (False, m', logged @ [''Baseline file is corrupted: '' @ exc_message e])
          else if is_ValueError (exc_class_of e) then
            Inr (False, m', logged @ [''Invalid baseline format: '' @ exc_message e])
          else if is_Exception (exc_class_of e) then
            Inr (False, m', logged @ [''Error loading baseline: '' @ exc_message e])
          else Inl e)"

text \<open>
  \<^verbatim>\<open>monitor_once\<close>: the comparison runs only after a successful load. The result is the
  changeset handed to the report, if there is one.
\<close>

definition monitor_once ::
  "pylib \<Rightarrow> monitor \<Rightarrow> world \<Rightarrow> string \<Rightarrow> py_exception + changes option"
where
  "monitor_once lib m w directory =
     (case load_baseline lib m w of
        Inl e \<Rightarrow> if is_Exception (exc_class_of e) then Inr None else Inl e
      | Inr (ok, m', logged) \<Rightarrow>
          if \<not> ok then Inr None
          else
            (case check_changes lib m' w directory of
               Inl e \<Rightarrow> if is_Exception (exc_class_of e) then Inr None else Inl e
             | Inr (ch, current_state) \<Rightarrow> Inr (Some ch)))"

section \<open>The \<^verbatim>\<open>json\<close> module\<close>

text \<open>
  The encoder and the decoder of Python's \<^verbatim>\<open>json\<close> module, as \<^verbatim>\<open>json/encoder.py\<close>,
  \<^verbatim>\<open>json/decoder.py\<close> and \<^verbatim>\<open>json/scanner.py\<close> of CPython define them and as far as the
  baseline file needs them: \<^verbatim>\<open>json.dump\<close> with \<^verbatim>\<open>indent=2\<close> and the defaults otherwise,
  and \<^verbatim>\<open>json.load\<close> with the defaults. They are the values of the two \<^verbatim>\<open>json\<close> fields
  of \<open>stdlib\<close> below; the statements that hold of every library keep the library as a
  parameter.
\<close>

text \<open>
  Decimal digits, and \<^verbatim>\<open>int.__repr__\<close>: an optional minus sign and the digits, without
  leading zeros.
\<close>

definition is_digit :: "char \<Rightarrow> bool" where
  "is_digit c = (48 \<le> (of_char c :: nat) \<and> (of_char c :: nat) \<le> 57)"

definition digit_char :: "nat \<Rightarrow> char" where
  "digit_char d = char_of (48 + d)"

definition digit_val :: "char \<Rightarrow> nat" where
  "digit_val c = of_char c - 48"

fun digits :: "nat \<Rightarrow> nat list" where
  "digits n = (if n < 10 then [n] else digits (n div 10) @ [n mod 10])"

declare digits.simps [simp del]

definition nat_of_digits :: "nat list \<Rightarrow> nat" where
  "nat_of_digits ds = foldl (\<lambda>a d. 10 * a + d) 0 ds"

definition str_nat :: "nat \<Rightarrow> string" where
  "str_nat n = map digit_char (digits n)"

definition str_int :: "int \<Rightarrow> string" where
  "str_int i = (if i < 0 then CHR ''-'' # str_nat (nat (- i)) else str_nat (nat i))"

definition int_of_str :: "string \<Rightarrow> nat" where
  "int_of_str cs = nat_of_digits (map digit_val cs)"

text \<open>
  \<^verbatim>\<open>float.__repr__\<close>, which the encoder calls for a float. With \<open>ds\<close> the digits of the
  shortest decimal and \<open>decpt\<close> the position of the decimal point after them, the
  exponent form is used when \<open>decpt\<close> is above 16 or below -3, the exponent with a sign
  and at least two digits; otherwise the digits are written out, padded with zeros and
  ended by \<^verbatim>\<open>.0\<close> when there is no fraction.
\<close>

definition exp_digits :: "nat \<Rightarrow> string" where
  "exp_digits x = (if x < 10 then [CHR ''0'', digit_char x] else str_nat x)"

definition float_layout :: "string \<Rightarrow> int \<Rightarrow> string" where
  "float_layout ds decpt =
     (if decpt \<le> - 4 \<or> 16 < decpt then
        hd ds # (if 1 < length ds then CHR ''.'' # tl ds else []) @
        CHR ''e'' # (if decpt - 1 < 0 then CHR ''-'' else CHR ''+'') #
        exp_digits (nat \<bar>decpt - 1\<bar>)
      else if decpt \<le> 0 then ''0.'' @ replicate (nat (- decpt)) CHR ''0'' @ ds
      else if int (length ds) \<le> decpt then
        ds @ replicate (nat (decpt - int (length ds))) CHR ''0'' @ ''.0''
      else take (nat decpt) ds @ CHR ''.'' # drop (nat decpt) ds)"

definition float_body :: "nat \<Rightarrow> int \<Rightarrow> string" where
  "float_body m e = float_layout (str_nat m) (int (length (str_nat m)) + e)"

fun float_repr :: "pyfloat \<Rightarrow> string" where
  "float_repr (Finite neg m e) = (if neg then CHR ''-'' # float_body m e else float_body m e)"

text \<open>
  The number token of the decoder, matched greedily: an optional minus sign, then
  either a single zero or a non-zero digit and more digits; optionally a point and
  digits; optionally \<^verbatim>\<open>e\<close> or \<^verbatim>\<open>E\<close>, an optional sign and digits. A token with neither fraction
  nor exponent is an \<^verbatim>\<open>int\<close>, any other a \<^verbatim>\<open>float\<close>; the float of a decimal is that
  decimal in lowest terms, which is the float Python reads when the text is one that
  \<^verbatim>\<open>repr\<close> printed. The rounding of longer decimals to the nearest double, and the
  tokens \<^verbatim>\<open>NaN\<close> and \<^verbatim>\<open>Infinity\<close>, are outside this model.
\<close>

fun int_part :: "string \<Rightarrow> (string \<times> string) option" where
  "int_part [] = None"
| "int_part (c # cs) =
     (if c = CHR ''0'' then Some ([c], cs)
      else if is_digit c then Some (c # takeWhile is_digit cs, dropWhile is_digit cs)
      else None)"

fun frac_part :: "string \<Rightarrow> string \<times> string" where
  "frac_part (c # d # cs) =
     (if c = CHR ''.'' \<and> is_digit d then (d # takeWhile is_digit cs, dropWhile is_digit cs)
      else ([], c # d # cs))"
| "frac_part s = ([], s)"

fun exp_part :: "string \<Rightarrow> int option \<times> string" where
  "exp_part (c # d # x # cs) =
     (if c = CHR ''e'' \<or> c = CHR ''E'' then
        (if (d = CHR ''+'' \<or> d = CHR ''-'') \<and> is_digit x then
           (Some ((if d = CHR ''-'' then - 1 else 1) * int (int_of_str (x # takeWhile is_digit cs))),
            dropWhile is_digit cs)
         else if is_digit d then
           (Some (int (int_of_str (d # takeWhile is_digit (x # cs)))), dropWhile is_digit (x # cs))
         else (None, c # d # x # cs))
      else (None, c # d # x # cs))"
| "exp_part [c, d] =
     (if (c = CHR ''e'' \<or> c = CHR ''E'') \<and> is_digit d then (Some (int (int_of_str [d])), [])
      else (None, [c, d]))"
| "exp_part s = (None, s)"

fun strip_zeros :: "nat \<Rightarrow> int \<Rightarrow> nat \<times> int" where
  "strip_zeros m e =
     (if m \<noteq> 0 \<and> m mod 10 = 0 then strip_zeros (m div 10) (e + 1) else (m, e))"

declare strip_zeros.simps [simp del]

definition float_of_decimal :: "bool \<Rightarrow> nat \<Rightarrow> int \<Rightarrow> pyfloat" where
  "float_of_decimal neg m e =
     (if m = 0 then Finite neg 0 0
      else (case strip_zeros m e of (m', e') \<Rightarrow> Finite neg m' e'))"

definition parse_unsigned :: "bool \<Rightarrow> string \<Rightarrow> (pyval \<times> string) option" where
  "parse_unsigned neg s1 =
     (case int_part s1 of
        None \<Rightarrow> None
      | Some (ip, s2) \<Rightarrow>
          (case frac_part s2 of
             (fp, s3) \<Rightarrow>
               (case exp_part s3 of
                  (ex, s4) \<Rightarrow>
                    if fp = [] \<and> ex = None then
                      Some (PInt ((if neg then - 1 else 1) * int (int_of_str ip)), s4)
                    else
                      Some (PFloat (float_of_decimal neg (int_of_str (ip @ fp))
                              ((case ex of None \<Rightarrow> 0 | Some x \<Rightarrow> x) - int (length fp))),
                            s4))))"

fun parse_number :: "string \<Rightarrow> (pyval \<times> string) option" where
  "parse_number [] = None"
| "parse_number (c # cs) =
     (if c = CHR ''-'' then parse_unsigned True cs else parse_unsigned False (c # cs))"

text \<open>
  Strings. The encoder runs with \<^verbatim>\<open>ensure_ascii\<close>: the quote, the backslash and the five
  control characters with a short escape are written with it, the other characters from
  space to tilde as they are, every other one as a backslash, \<^verbatim>\<open>u00\<close> and its code in
  two lower-case hexadecimal digits.
  A character of the model is a code point below 256. The decoder is the strict
  \<^verbatim>\<open>scanstring\<close>: it runs to the closing quote, resolves the escapes and refuses a raw
  control character; it returns the string and the rest of the text.
\<close>

definition hex_char :: "nat \<Rightarrow> char" where
  "hex_char d = (if d < 10 then char_of (48 + d) else char_of (87 + d))"

definition hex_val :: "char \<Rightarrow> nat option" where
  "hex_val c =
     (let n = (of_char c :: nat) in
      if 48 \<le> n \<and> n \<le> 57 then Some (n - 48)
      else if 97 \<le> n \<and> n \<le> 102 then Some (n - 87)
      else if 65 \<le> n \<and> n \<le> 70 then Some (n - 55)
      else None)"

definition escape_char :: "char \<Rightarrow> string" where
  "escape_char c =
     (if c = CHR 0x22 then [CHR 0x5C, CHR 0x22]
      else if c = CHR 0x5C then [CHR 0x5C, CHR 0x5C]
      else if c = CHR 0x0A then [CHR 0x5C, CHR ''n'']
      else if c = CHR 0x0D then [CHR 0x5C, CHR ''r'']
      else if c = CHR 0x09 then [CHR 0x5C, CHR ''t'']
      else if c = CHR 0x08 then [CHR 0x5C, CHR ''b'']
      else if c = CHR 0x0C then [CHR 0x5C, CHR ''f'']
      else if 32 \<le> (of_char c :: nat) \<and> (of_char c :: nat) \<le> 126 then [c]
      else [CHR 0x5C, CHR ''u'', CHR ''0'', CHR ''0'',
            hex_char ((of_char c :: nat) div 16), hex_char ((of_char c :: nat) mod 16)])"

definition encode_string :: "string \<Rightarrow> string" where
  "encode_string s = CHR 0x22 # concat (map escape_char s) @ [CHR 0x22]"

definition unescape :: "char \<Rightarrow> char option" where
  "unescape e =
     (if e = CHR 0x22 then Some (CHR 0x22)
      else if e = CHR 0x5C then Some (CHR 0x5C)
      else if e = CHR ''/'' then Some (CHR ''/'')
      else if e = CHR ''b'' then Some (CHR 0x08)
      else if e = CHR ''f'' then Some (CHR 0x0C)
      else if e = CHR ''n'' then Some (CHR 0x0A)
      else if e = CHR ''r'' then Some (CHR 0x0D)
      else if e = CHR ''t'' then Some (CHR 0x09)
      else None)"

definition decode_uXXXX :: "char \<Rightarrow> char \<Rightarrow> char \<Rightarrow> char \<Rightarrow> char option" where
  "decode_uXXXX a b c d =
     (case (hex_val a, hex_val b, hex_val c, hex_val d) of
        (Some h1, Some h2, Some h3, Some h4) \<Rightarrow>
          (let code = ((h1 * 16 + h2) * 16 + h3) * 16 + h4 in
           if code < 256 then Some (char_of code) else None)
      | _ \<Rightarrow> None)"

fun scanstring :: "string \<Rightarrow> (string \<times> string) option" where
  "scanstring [] = None"
| "scanstring (c # cs) =
     (if c = CHR 0x22 then Some ([], cs)
      else if c = CHR 0x5C then
        (case cs of
           [] \<Rightarrow> None
         | e # cs' \<Rightarrow>
             if e = CHR ''u'' then
               (case cs' of
                  h1 # h2 # h3 # h4 # cs'' \<Rightarrow>
                    (case decode_uXXXX h1 h2 h3 h4 of
                       None \<Rightarrow> None
                     | Some ch \<Rightarrow>
                         (case scanstring cs'' of
                            None \<Rightarrow> None
                          | Some (r, rest) \<Rightarrow> Some (ch # r, rest)))
                | _ \<Rightarrow> None)
             else
               (case unescape e of
                  None \<Rightarrow> None
                | Some ch \<Rightarrow>
                    (case scanstring cs' of
                       None \<Rightarrow> None
                     | Some (r, rest) \<Rightarrow> Some (ch # r, rest))))
      else if (of_char c :: nat) < 32 then None
      else (case scanstring cs of None \<Rightarrow> None | Some (r, rest) \<Rightarrow> Some (c # r, rest)))"

text \<open>
  \<^verbatim>\<open>json.dump(obj, f, indent=2)\<close> (line 201): a non-empty container starts a new line
  for every item, indented by two spaces for each level, the items separated by a comma
  at the end of the line, a key and its value by a colon and a space; an empty container
  is \<^verbatim>\<open>[]\<close> or \<^verbatim>\<open>{}\<close>.
\<close>

definition nl :: "nat \<Rightarrow> string" where
  "nl level = CHR 0x0A # replicate (2 * level) CHR '' ''"

fun dumps_at :: "nat \<Rightarrow> pyval \<Rightarrow> string"
  and dumps_items :: "nat \<Rightarrow> pyval list \<Rightarrow> string"
  and dumps_members :: "nat \<Rightarrow> (string \<times> pyval) list \<Rightarrow> string"
where
  "dumps_at lv PNone = ''null''"
| "dumps_at lv (PBool b) = (if b then ''true'' else ''false'')"
| "dumps_at lv (PInt i) = str_int i"
| "dumps_at lv (PFloat f) = float_repr f"
| "dumps_at lv (PStr s) = encode_string s"
| "dumps_at lv (PList vs) =
     (if vs = [] then ''[]''
      else CHR ''['' # nl (Suc lv) @ dumps_items (Suc lv) vs @ nl lv @ '']'')"
| "dumps_at lv (PDict kvs) =
     (if kvs = [] then ''{}''
      else CHR ''{'' # nl (Suc lv) @ dumps_members (Suc lv) kvs @ nl lv @ ''}'')"
| "dumps_items lv [] = []"
| "dumps_items lv (v # vs) =
     dumps_at lv v @ (if vs = [] then [] else CHR '','' # nl lv @ dumps_items lv vs)"
| "dumps_members lv [] = []"
| "dumps_members lv ((k, v) # kvs) =
     encode_string k @ '': '' @ dumps_at lv v @
     (if kvs = [] then [] else CHR '','' # nl lv @ dumps_members lv kvs)"

definition json_dumps :: "pyval \<Rightarrow> string" where
  "json_dumps v = dumps_at 0 v"

text \<open>
  \<^verbatim>\<open>json.load\<close> (lines 205 and 248): white space is skipped around every token; an
  object becomes a dict in which a repeated key keeps its first position and its last
  value; the document must end after the value. The scanner tries, in this order, a
  string, an object, an array, the three literals and a number. The recursion of the
  decoder is bounded by a counter that starts above the length of the text, every call
  taking one from it; a decoder that runs out of it reports an error.
\<close>

definition is_ws :: "char \<Rightarrow> bool" where
  "is_ws c = (c = CHR '' '' \<or> c = CHR 0x09 \<or> c = CHR 0x0A \<or> c = CHR 0x0D)"

definition skip_ws :: "string \<Rightarrow> string" where
  "skip_ws s = dropWhile is_ws s"

definition dict_of_pairs :: "(string \<times> pyval) list \<Rightarrow> (string \<times> pyval) list" where
  "dict_of_pairs pairs = foldl (\<lambda>d (k, v). AList.update k v d) [] pairs"

fun parse_value :: "nat \<Rightarrow> string \<Rightarrow> (pyval \<times> string) option"
  and parse_items :: "nat \<Rightarrow> pyval list \<Rightarrow> string \<Rightarrow> (pyval \<times> string) option"
  and parse_members ::
    "nat \<Rightarrow> (string \<times> pyval) list \<Rightarrow> string \<Rightarrow> (pyval \<times> string) option"
where
  "parse_value 0 s = None"
| "parse_value (Suc n) s =
     (case s of
        [] \<Rightarrow> None
      | c # cs \<Rightarrow>
          if c = CHR 0x22 then
            (case scanstring cs of None \<Rightarrow> None | Some (r, rest) \<Rightarrow> Some (PStr r, rest))
          else if c = CHR ''{'' then
            (case skip_ws cs of
               [] \<Rightarrow> None
             | d # ds \<Rightarrow>
                 if d = CHR ''}'' then Some (PDict [], ds)
                 else if d = CHR 0x22 then parse_members n [] (d # ds)
                 else None)
          else if c = CHR ''['' then
            (case skip_ws cs of
               [] \<Rightarrow> None
             | d # ds \<Rightarrow> if d = CHR '']'' then Some (PList [], ds) else parse_items n [] (d # ds))
          else if take 4 s = ''null'' then Some (PNone, drop 4 s)
          else if take 4 s = ''true'' then Some (PBool True, drop 4 s)
          else if take 5 s = ''false'' then Some (PBool False, drop 5 s)
          else parse_number s)"
| "parse_items 0 acc s = None"
| "parse_items (Suc n) acc s =
     (case parse_value n s of
        None \<Rightarrow> None
      | Some (v, rest) \<Rightarrow>
          (case skip_ws rest of
             [] \<Rightarrow> None
           | d # ds \<Rightarrow>
               if d = CHR '']'' then Some (PList (acc @ [v]), ds)
               else if d = CHR '','' then parse_items n (acc @ [v]) (skip_ws ds)
               else None))"
| "parse_members 0 acc s = None"
| "parse_members (Suc n) acc s =
     (case s of
        [] \<Rightarrow> None
      | q # qs \<Rightarrow>
          if q \<noteq> CHR 0x22 then None
          else
            (case scanstring qs of
               None \<Rightarrow> None
             | Some (key, r1) \<Rightarrow>
                 (case skip_ws r1 of
                    [] \<Rightarrow> None
                  | c # r2 \<Rightarrow>
                      if c \<noteq> CHR '':'' then None
                      else
                        (case parse_value n (skip_ws r2) of
                           None \<Rightarrow> None
                         | Some (v, r3) \<Rightarrow>
                             (case skip_ws r3 of
                                [] \<Rightarrow> None
                              | d # ds \<Rightarrow>
                                  if d = CHR ''}'' then
                                    Some (PDict (dict_of_pairs (acc @ [(key, v)])), ds)
                                  else if d = CHR '','' then
                                    parse_members n (acc @ [(key, v)]) (skip_ws ds)
                                  else None)))))"

definition json_loads :: "string \<Rightarrow> py_exception + pyval" where
  "json_loads s =
     (case parse_value (Suc (length s)) (skip_ws s) of
        None \<Rightarrow> Inl (Exc JSONDecodeError ''Expecting value'')
      | Some (v, rest) \<Rightarrow>
          if skip_ws rest = [] then Inr v else Inl (Exc JSONDecodeError ''Extra data''))"

text \<open>
  The values the round trip is stated for: every float is in lowest terms, and the keys
  of every dict are distinct, as those of a Python dict are.
\<close>

fun py_wf :: "pyval \<Rightarrow> bool"
  and py_wf_items :: "pyval list \<Rightarrow> bool"
  and py_wf_members :: "(string \<times> pyval) list \<Rightarrow> bool"
where
  "py_wf (PFloat f) = float_ok f"
| "py_wf (PList vs) = py_wf_items vs"
| "py_wf (PDict kvs) = (distinct (map fst kvs) \<and> py_wf_members kvs)"
| "py_wf v = True"
| "py_wf_items [] = True"
| "py_wf_items (v # vs) = (py_wf v \<and> py_wf_items vs)"
| "py_wf_members [] = True"
| "py_wf_members ((k, v) # kvs) = (py_wf v \<and> py_wf_members kvs)"

text \<open>
  What can follow a value in the text that the encoder writes (nothing, a comma or a
  new line), the first character of a value (\<open>starter\<close>), an integer part without
  leading zeros, and the number of calls the decoder needs for a value.
\<close>

definition follow :: "string \<Rightarrow> bool" where
  "follow r = (r = [] \<or> hd r = CHR '','' \<or> hd r = CHR 0x0A)"

definition starter :: "char \<Rightarrow> bool" where
  "starter c = (\<not> is_ws c \<and> c \<noteq> CHR '']'' \<and> c \<noteq> CHR ''}'')"

definition valid_int :: "string \<Rightarrow> bool" where
  "valid_int ip = (ip = ''0'' \<or> (ip \<noteq> [] \<and> list_all is_digit ip \<and> hd ip \<noteq> CHR ''0''))"

fun fuel :: "pyval \<Rightarrow> nat"
  and fuel_items :: "pyval list \<Rightarrow> nat"
  and fuel_members :: "(string \<times> pyval) list \<Rightarrow> nat"
where
  "fuel (PList vs) = Suc (fuel_items vs)"
| "fuel (PDict kvs) = Suc (fuel_members kvs)"
| "fuel v = 1"
| "fuel_items [] = 0"
| "fuel_items (v # vs) = Suc (fuel v + fuel_items vs)"
| "fuel_members [] = 0"
| "fuel_members ((k, v) # kvs) = Suc (fuel v + fuel_members kvs)"

text \<open>
  The library with \<^verbatim>\<open>json\<close> as above; the digest stays a parameter.
\<close>

definition stdlib :: "(string \<Rightarrow> string) \<Rightarrow> pylib" where
  "stdlib digest = \<lparr>sha256_hexdigest = digest, json_dump = json_dumps, json_load = json_loads\<rparr>"

section \<open>The differ as the specification words it\<close>

text \<open>
  The three steps of the specification's \<open>diff(baseline, current)\<close>, written from its
  words and compared below with the loops of \<^verbatim>\<open>check_changes\<close>. \<open>py_get\<close> reads a field
  of a record of the baseline; \<open>has_key\<close> says that the record has it.
\<close>

definition has_key :: "pyval \<Rightarrow> string \<Rightarrow> bool" where
  "has_key v k = (case subscript v k of Inr x \<Rightarrow> True | Inl e \<Rightarrow> False)"

definition py_get :: "pyval \<Rightarrow> string \<Rightarrow> pyval" where
  "py_get v k = (case subscript v k of Inr x \<Rightarrow> x | Inl e \<Rightarrow> PNone)"

fun modified_of :: "string set \<Rightarrow> scan_state \<Rightarrow> string \<times> pyval \<Rightarrow> modified_entry list" where
  "modified_of ign cur (p, info) =
       (if basename p \<in> ign then []
        else (case map_of cur p of
                None \<Rightarrow> []
              | Some ci \<Rightarrow>
                  if py_get info ''hash'' \<noteq> PStr (info_hash ci)
                  then [\<lparr>mod_file = p, old_hash = py_get info ''hash'', new_hash = info_hash ci,
                         old_size = py_get info ''size'', new_size = info_size ci\<rparr>]
                  else []))"

fun deleted_of :: "string set \<Rightarrow> scan_state \<Rightarrow> string \<times> pyval \<Rightarrow> string list" where
  "deleted_of ign cur (p, info) =
       (if basename p \<in> ign then []
        else (case map_of cur p of None \<Rightarrow> [p] | Some ci \<Rightarrow> []))"

fun added_of :: "(string \<times> pyval) list \<Rightarrow> string \<times> file_info \<Rightarrow> added_entry list" where
  "added_of bl (p, ci) =
       (if p \<in> fst ` set bl then []
        else [\<lparr>add_file = p, add_hash = info_hash ci, add_size = info_size ci\<rparr>])"

definition diff :: "string set \<Rightarrow> (string \<times> pyval) list \<Rightarrow> scan_state \<Rightarrow> changes" where
  "diff ign bl cur =
     \<lparr>modified = concat (map (modified_of ign cur) bl),
      added = concat (map (added_of bl) cur),
      deleted = concat (map (deleted_of ign cur) bl)\<rparr>"

definition same_hash_in_both :: "(string \<times> pyval) list \<Rightarrow> scan_state \<Rightarrow> string \<Rightarrow> bool" where
  "same_hash_in_both bl cur p =
     (case map_of bl p of
        None \<Rightarrow> False
      | Some info \<Rightarrow>
          (case map_of cur p of
             None \<Rightarrow> False
           | Some ci \<Rightarrow> py_get info ''hash'' = PStr (info_hash ci)))"


section \<open>Predicates of the statements\<close>

text \<open>
  What \<^verbatim>\<open>load_baseline\<close> checks of an entry (lines 255-259) and of the whole document,
  as predicates.
\<close>

fun entry_valid :: "pyval \<Rightarrow> bool" where
  "entry_valid (PDict entry) = (required_keys \<subseteq> fst ` set entry)"
| "entry_valid v = False"

fun baseline_valid :: "pyval \<Rightarrow> bool" where
  "baseline_valid (PDict kvs) = list_all (\<lambda>(p, info). entry_valid info) kvs"
| "baseline_valid v = False"


text \<open>
  All the files of a tree with the names that lead to them, whatever the scan makes of
  them; a tree whose names hold no separator, as the names of a file system do; the
  record that the scan stores for a file of the tree that passes its filters; and a
  relative path that lies below a directory whose name starts with a dot.
\<close>

fun tree_files :: "string list \<Rightarrow> fs_node \<Rightarrow> (string list \<times> file_node) list"
  and tree_files_entries ::
    "string list \<Rightarrow> (string \<times> fs_node) list \<Rightarrow> (string list \<times> file_node) list"
where
  "tree_files path (FsFile f) = [(path, f)]"
| "tree_files path (FsDir listable entries) = tree_files_entries path entries"
| "tree_files_entries path [] = []"
| "tree_files_entries path ((name, n) # rest) =
     tree_files (path @ [name]) n @ tree_files_entries path rest"

fun names_ok :: "fs_node \<Rightarrow> bool"
  and names_ok_entries :: "(string \<times> fs_node) list \<Rightarrow> bool"
where
  "names_ok (FsFile f) = True"
| "names_ok (FsDir listable entries) = names_ok_entries entries"
| "names_ok_entries [] = True"
| "names_ok_entries ((name, n) # rest) =
     (sep \<notin> set name \<and> names_ok n \<and> names_ok_entries rest)"

definition scanned ::
  "pylib \<Rightarrow> monitor \<Rightarrow> fs_node \<Rightarrow> string \<Rightarrow> file_info \<Rightarrow> bool" where
  "scanned lib m node k fi =
     (\<exists>ds name f. k = path_join (ds @ [name]) \<and>
        (ds @ [name], f) \<in> set (tree_files [] node) \<and>
        (\<forall>d \<in> set ds. keep_dir d) \<and>
        \<not> startswith name ''.'' \<and> name \<noteq> basename (baseline_file m) \<and>
        name \<notin> ignore_files m \<and>
        get_file_info lib m f = Inr (Some fi) \<and> info_hash fi \<noteq> [])"

definition world_names_ok :: "world \<Rightarrow> string \<Rightarrow> bool" where
  "world_names_ok w directory =
     (case dirs w directory of None \<Rightarrow> True | Some node \<Rightarrow> names_ok node)"

definition in_hidden_dir :: "string \<Rightarrow> bool" where
  "in_hidden_dir p = list_ex (\<lambda>d. startswith d ''.'') (butlast (split_path p))"


section \<open>Example data\<close>

text \<open>
  The scenario of the specification: \<^verbatim>\<open>a.txt\<close> holds \<^verbatim>\<open>hello\<close> and \<^verbatim>\<open>b.txt\<close> holds
  \<^verbatim>\<open>world\<close> when the baseline is taken; then \<^verbatim>\<open>a.txt\<close> becomes \<^verbatim>\<open>HELLO\<close>, \<^verbatim>\<open>b.txt\<close> is
  deleted and \<^verbatim>\<open>c.txt\<close> appears with \<^verbatim>\<open>new\<close>.
\<close>

definition example_baseline :: scan_state where
  "example_baseline =
     [(''a.txt'', \<lparr>info_hash = ''2cf24dba5fb0a30e26e83b2ac5b9e29e1b161e5c1fa7425e73043362938b9824'',
                  info_size = 5, info_modified = (Finite False 17 8), info_created = (Finite False 17 8)\<rparr>),
      (''b.txt'', \<lparr>info_hash = ''486ea46224d1bb4fb680f34f7c9ad96a8f24ec88be73ea8e5a6c65260e9cb8a7'',
                  info_size = 5, info_modified = (Finite False 1700000001 0), info_created = (Finite False 1700000001 0)\<rparr>)]"

definition example_current :: scan_state where
  "example_current =
     [(''a.txt'', \<lparr>info_hash = ''3733cd977ff8eb18b987357e22ced99f46097f31ecb239e878ae63760e83e4d5'',
                  info_size = 5, info_modified = (Finite False 17000005 2), info_created = (Finite False 17 8)\<rparr>),
      (''c.txt'', \<lparr>info_hash = ''11507a0e2f5e69d5dfa40a62a1bd7b6ee57e6bcd85c67c9b8431b36fff21c437'',
                  info_size = 3, info_modified = (Finite False 17000006 2), info_created = (Finite False 17000006 2)\<rparr>)]"

text \<open>
  A library for the examples: the SHA-256 digests of the contents the examples use, and
  \<^verbatim>\<open>json\<close> on the documents they use, with the text \<^verbatim>\<open>json.dump(..., indent=2)\<close> writes.
\<close>

definition example_sha256 :: "string \<Rightarrow> string" where
  "example_sha256 content =
     (if content = ''hello'' then ''2cf24dba5fb0a30e26e83b2ac5b9e29e1b161e5c1fa7425e73043362938b9824''
      else if content = ''world'' then ''486ea46224d1bb4fb680f34f7c9ad96a8f24ec88be73ea8e5a6c65260e9cb8a7''
      else if content = ''HELLO'' then ''3733cd977ff8eb18b987357e22ced99f46097f31ecb239e878ae63760e83e4d5''
      else if content = ''new'' then ''11507a0e2f5e69d5dfa40a62a1bd7b6ee57e6bcd85c67c9b8431b36fff21c437''
      else ''e3b0c44298fc1c149afbf4c8996fb92427ae41e4649b934ca495991b7852b855'')"

definition example_text :: string where
  \<open>example_text = ''{\<newline>  "a.txt": {\<newline>    "hash": "2cf24dba5fb0a30e26e83b2ac5b9e29e1b161e5c1fa7425e73043362938b9824",\<newline>    "size": 5,\<newline>    "modified": 1700000000.0,\<newline>    "created": 1700000000.0\<newline>  },\<newline>  "b.txt": {\<newline>    "hash": "486ea46224d1bb4fb680f34f7c9ad96a8f24ec88be73ea8e5a6c65260e9cb8a7",\<newline>    "size": 5,\<newline>    "modified": 1700000001.0,\<newline>    "created": 1700000001.0\<newline>  }\<newline>}''\<close>

definition example_text_no_size :: string where
  \<open>example_text_no_size = ''{\<newline>  "a.txt": {\<newline>    "hash": "2cf24dba5fb0a30e26e83b2ac5b9e29e1b161e5c1fa7425e73043362938b9824",\<newline>    "modified": 1700000000.0,\<newline>    "created": 1700000000.0\<newline>  }\<newline>}''\<close>

definition example_no_size :: pyval where
  "example_no_size =
     PDict [(''a.txt'',
       PDict [(''hash'', PStr ''2cf24dba5fb0a30e26e83b2ac5b9e29e1b161e5c1fa7425e73043362938b9824''),
              (''modified'', PFloat (Finite False 17 8)), (''created'', PFloat (Finite False 17 8))])]"

definition example_lib :: pylib where
  "example_lib =
     \<lparr>sha256_hexdigest = example_sha256,
      json_dump = (\<lambda>v. if v = py_of_state example_baseline then example_text else []),
      json_load = (\<lambda>t. if t = example_text then Inr (py_of_state example_baseline)
                        else if t = example_text_no_size then Inr example_no_size
                        else Inl (Exc JSONDecodeError ''Expecting value: line 1 column 1 (char 0)''))\<rparr>"

text \<open>The files and directories of the examples.\<close>

definition readable_file :: "string \<Rightarrow> pyfloat \<Rightarrow> pyfloat \<Rightarrow> file_node" where
  "readable_file content mtime ctime =
     \<lparr>stat_res = Inr \<lparr>st_size = int (length content), st_mtime = mtime, st_ctime = ctime\<rparr>,
      getsize_res = Inr (int (length content)),
      read_res = Inr content\<rparr>"

definition secret_file :: file_node where
  "secret_file =
     \<lparr>stat_res = Inr \<lparr>st_size = 7, st_mtime = (Finite False 1700000003 0), st_ctime = (Finite False 1700000003 0)\<rparr>,
      getsize_res = Inr 7,
      read_res = Inl (Exc PermissionError ''[Errno 13] Permission denied'')\<rparr>"

definition vanished_file :: file_node where
  "vanished_file =
     \<lparr>stat_res = Inr \<lparr>st_size = 7, st_mtime = (Finite False 1700000003 0), st_ctime = (Finite False 1700000003 0)\<rparr>,
      getsize_res = Inl (Exc FileNotFoundError ''[Errno 2] No such file or directory''),
      read_res = Inl (Exc FileNotFoundError ''[Errno 2] No such file or directory'')\<rparr>"

definition big_file :: file_node where
  "big_file =
     \<lparr>stat_res = Inr \<lparr>st_size = 600 * 1024 * 1024, st_mtime = (Finite False 1700000004 0),
                       st_ctime = (Finite False 1700000004 0)\<rparr>,
      getsize_res = Inr (600 * 1024 * 1024),
      read_res = Inr []\<rparr>"

definition example_tree :: fs_node where
  "example_tree =
     FsDir True
       [(''a.txt'', FsFile (readable_file ''hello'' (Finite False 17 8) (Finite False 17 8))),
        (''b.txt'', FsFile (readable_file ''world'' (Finite False 1700000001 0) (Finite False 1700000001 0))),
        (''fim.log'', FsFile (readable_file ''started'' (Finite False 1700000002 0) (Finite False 1700000002 0))),
        (''secret.txt'', FsFile secret_file),
        (''big.iso'', FsFile big_file),
        (''.git'', FsDir True [(''config'', FsFile (readable_file ''hello'' (Finite False 1700000005 0) (Finite False 1700000005 0)))])]"

definition example_tree_later :: fs_node where
  "example_tree_later =
     FsDir True
       [(''a.txt'', FsFile (readable_file ''HELLO'' (Finite False 17000005 2) (Finite False 17 8))),
        (''c.txt'', FsFile (readable_file ''new'' (Finite False 17000006 2) (Finite False 17000006 2))),
        (''fim.log'', FsFile (readable_file ''started again'' (Finite False 17000007 2) (Finite False 1700000002 0))),
        (''.git'', FsDir True [(''config'', FsFile (readable_file ''world'' (Finite False 17000008 2) (Finite False 1700000005 0)))])]"

definition example_world :: world where
  "example_world =
     \<lparr>dirs = [''/srv/data'' \<mapsto> example_tree,
              ''/srv/notes.txt'' \<mapsto> FsFile (readable_file ''hello'' (Finite False 17 8) (Finite False 17 8)),
              ''/srv/locked'' \<mapsto> FsDir False [],
              ''/srv/skipped'' \<mapsto> FsDir True [(''secret.txt'', FsFile secret_file)]],
      files = Map.empty,
      read_denied = (\<lambda>p. False),
      write_error = (\<lambda>p. None)\<rparr>"

definition example_world_later :: world where
  "example_world_later = example_world\<lparr>dirs := (dirs example_world)(''/srv/data'' \<mapsto> example_tree_later)\<rparr>"

definition example_monitor :: monitor where
  "example_monitor = init_monitor ''/srv/baseline.json'' None"

section \<open>The comparison meets the specification's three steps\<close>

lemma baseline_loop_spec:
  "\<forall>(p, info) \<in> set bl. has_key info ''hash'' \<and> has_key info ''size'' \<Longrightarrow>
   baseline_loop ign cur bl ch =
     Inr (ch\<lparr>modified := modified ch @ concat (map (modified_of ign cur) bl),
             deleted := deleted ch @ concat (map (deleted_of ign cur) bl)\<rparr>)"
proof (induction bl arbitrary: ch)
  case Nil
  show ?case by simp
next
  case (Cons a bl)
  obtain p info where a: "a = (p, info)" by (cases a)
  from Cons.prems a obtain h s where
    hs: "subscript info ''hash'' = Inr h" "subscript info ''size'' = Inr s"
    by (auto simp: has_key_def split: sum.splits)
  have IH: "\<And>ch. baseline_loop ign cur bl ch =
     Inr (ch\<lparr>modified := modified ch @ concat (map (modified_of ign cur) bl),
             deleted := deleted ch @ concat (map (deleted_of ign cur) bl)\<rparr>)"
    using Cons.IH Cons.prems by simp
  show ?case
    by (cases "map_of cur p")
       (auto simp: a hs IH py_get_def)
qed

lemma current_loop_spec:
  "distinct (map fst cur) \<Longrightarrow> set (zip ks cs) \<subseteq> set cur \<Longrightarrow> length ks = length cs \<Longrightarrow>
   current_loop bl cur ks ch = ch\<lparr>added := added ch @ concat (map (added_of bl) (zip ks cs))\<rparr>"
proof (induction ks arbitrary: ch cs)
  case Nil
  show ?case by simp
next
  case (Cons k ks)
  then obtain c cs' where cs: "cs = c # cs'" by (cases cs) auto
  with Cons.prems have look: "map_of cur k = Some c" by simp
  have none: "(map_of bl k = None) = (k \<notin> fst ` set bl)"
    by (simp add: map_of_eq_None_iff)
  have IH: "\<And>ch. current_loop bl cur ks ch =
      ch\<lparr>added := added ch @ concat (map (added_of bl) (zip ks cs'))\<rparr>"
    using Cons.IH [of cs'] Cons.prems cs by simp
  show ?case
    by (cases "k \<in> fst ` set bl") (simp_all add: cs look none IH)
qed

lemma current_loop_added:
  assumes "distinct (map fst cur)"
  shows "current_loop bl cur (map fst cur) ch =
           ch\<lparr>added := added ch @ concat (map (added_of bl) cur)\<rparr>"
  using current_loop_spec [OF assms, of "map fst cur" "map snd cur" bl ch]
  by (simp add: zip_map_fst_snd)

lemma compare_spec:
  assumes "\<forall>(p, info) \<in> set bl. has_key info ''hash'' \<and> has_key info ''size''"
    and "distinct (map fst cur)"
  shows "check_changes_compare ign (PDict bl) cur = Inr (diff ign bl cur)"
  using assms by (simp add: baseline_loop_spec current_loop_added empty_changes_def diff_def)

lemma in_modified_of:
  "(e \<in> set (modified_of ign cur (p, info))) =
   (basename p \<notin> ign \<and> (\<exists>ci. map_of cur p = Some ci \<and>
       py_get info ''hash'' \<noteq> PStr (info_hash ci) \<and>
       e = \<lparr>mod_file = p, old_hash = py_get info ''hash'', new_hash = info_hash ci,
             old_size = py_get info ''size'', new_size = info_size ci\<rparr>))"
  by (cases "map_of cur p") auto

lemma in_deleted_of:
  "(q \<in> set (deleted_of ign cur (p, info))) =
   (q = p \<and> basename p \<notin> ign \<and> map_of cur p = None)"
  by (cases "map_of cur p") auto

lemma in_added_of:
  "(e \<in> set (added_of bl (p, ci))) =
   (p \<notin> fst ` set bl \<and> e = \<lparr>add_file = p, add_hash = info_hash ci, add_size = info_size ci\<rparr>)"
  by auto

lemma mem_modified:
  "(p \<in> mod_file ` set (concat (map (modified_of ign cur) bl))) =
   (\<exists>info ci. (p, info) \<in> set bl \<and> basename p \<notin> ign \<and> map_of cur p = Some ci \<and>
       py_get info ''hash'' \<noteq> PStr (info_hash ci))"
  (is "?L = ?R")
proof
  assume ?L
  then obtain e x where x: "x \<in> set bl" and e: "e \<in> set (modified_of ign cur x)"
    and p: "p = mod_file e" by auto
  obtain q info where xq: "x = (q, info)" by (cases x)
  from e have "basename q \<notin> ign \<and> (\<exists>ci. map_of cur q = Some ci \<and>
       py_get info ''hash'' \<noteq> PStr (info_hash ci) \<and> mod_file e = q)"
    unfolding xq in_modified_of by auto
  with x xq p show ?R by blast
next
  assume ?R
  then obtain info ci where x: "(p, info) \<in> set bl" and rest: "basename p \<notin> ign"
    "map_of cur p = Some ci" "py_get info ''hash'' \<noteq> PStr (info_hash ci)" by blast
  let ?e = "\<lparr>mod_file = p, old_hash = py_get info ''hash'', new_hash = info_hash ci,
             old_size = py_get info ''size'', new_size = info_size ci\<rparr>"
  from rest have "?e \<in> set (modified_of ign cur (p, info))"
    unfolding in_modified_of by simp
  with x have "?e \<in> set (concat (map (modified_of ign cur) bl))"
    unfolding set_concat by (simp del: modified_of.simps) blast
  then have "mod_file ?e \<in> mod_file ` set (concat (map (modified_of ign cur) bl))"
    by (rule imageI)
  then show ?L by simp
qed

lemma mem_deleted:
  "(p \<in> set (concat (map (deleted_of ign cur) bl))) =
   (p \<in> fst ` set bl \<and> basename p \<notin> ign \<and> map_of cur p = None)"
  (is "?L = ?R")
proof
  assume ?L
  then obtain x where x: "x \<in> set bl" and e: "p \<in> set (deleted_of ign cur x)" by auto
  obtain q info where xq: "x = (q, info)" by (cases x)
  from e have "p = q \<and> basename q \<notin> ign \<and> map_of cur q = None"
    unfolding xq in_deleted_of by simp
  with x xq show ?R by force
next
  assume ?R
  then obtain info where x: "(p, info) \<in> set bl" and rest: "basename p \<notin> ign"
    "map_of cur p = None" by auto
  from rest have "p \<in> set (deleted_of ign cur (p, info))"
    unfolding in_deleted_of by simp
  with x show ?L
    unfolding set_concat by (simp del: deleted_of.simps) blast
qed

lemma mem_added:
  "(p \<in> add_file ` set (concat (map (added_of bl) cur))) =
   (p \<in> fst ` set cur \<and> p \<notin> fst ` set bl)"
  (is "?L = ?R")
proof
  assume ?L
  then obtain e x where x: "x \<in> set cur" and e: "e \<in> set (added_of bl x)"
    and p: "p = add_file e" by auto
  obtain q ci where xq: "x = (q, ci)" by (cases x)
  from e have "q \<notin> fst ` set bl \<and> add_file e = q"
    unfolding xq in_added_of by simp
  with x xq p show ?R by force
next
  assume ?R
  then obtain ci where x: "(p, ci) \<in> set cur" and rest: "p \<notin> fst ` set bl" by auto
  let ?e = "\<lparr>add_file = p, add_hash = info_hash ci, add_size = info_size ci\<rparr>"
  from rest have "?e \<in> set (added_of bl (p, ci))"
    unfolding in_added_of by simp
  with x have "?e \<in> set (concat (map (added_of bl) cur))"
    unfolding set_concat by (simp del: added_of.simps) blast
  then have "add_file ?e \<in> add_file ` set (concat (map (added_of bl) cur))"
    by (rule imageI)
  then show ?L by simp
qed


lemma modified_subset: "mod_file ` set (modified_of ign cur (p, info)) \<subseteq> {p}"
  by (auto split: option.splits)

lemma distinct_modified:
  "distinct (map fst bl) \<Longrightarrow> distinct (map mod_file (concat (map (modified_of ign cur) bl)))"
proof (induction bl)
  case Nil
  show ?case by simp
next
  case (Cons a bl)
  obtain p info where a: "a = (p, info)" by (cases a)
  have one: "distinct (map mod_file (modified_of ign cur (p, info)))"
    by (auto split: option.splits)
  have "p \<notin> mod_file ` set (concat (map (modified_of ign cur) bl))"
    using Cons.prems a unfolding mem_modified by (auto simp: image_iff)
  with modified_subset [of ign cur p info]
  have disj: "mod_file ` set (modified_of ign cur (p, info)) \<inter>
      mod_file ` set (concat (map (modified_of ign cur) bl)) = {}" by blast
  show ?case using Cons one disj by (simp add: a del: modified_of.simps)
qed

lemma distinct_deleted:
  "distinct (map fst bl) \<Longrightarrow> distinct (concat (map (deleted_of ign cur) bl))"
proof (induction bl)
  case Nil
  show ?case by simp
next
  case (Cons a bl)
  obtain p info where a: "a = (p, info)" by (cases a)
  have one: "distinct (deleted_of ign cur (p, info))"
    by (auto split: option.splits)
  have sub: "set (deleted_of ign cur (p, info)) \<subseteq> {p}"
    by (auto split: option.splits)
  have "p \<notin> set (concat (map (deleted_of ign cur) bl))"
    using Cons.prems a unfolding mem_deleted by (auto simp: image_iff)
  with sub have disj: "set (deleted_of ign cur (p, info)) \<inter>
      set (concat (map (deleted_of ign cur) bl)) = {}" by blast
  show ?case using Cons one disj by (simp add: a del: deleted_of.simps)
qed

lemma distinct_added:
  "distinct (map fst cur) \<Longrightarrow> distinct (map add_file (concat (map (added_of bl) cur)))"
proof (induction cur)
  case Nil
  show ?case by simp
next
  case (Cons a cur)
  obtain p ci where a: "a = (p, ci)" by (cases a)
  have one: "distinct (map add_file (added_of bl (p, ci)))" by auto
  have sub: "add_file ` set (added_of bl (p, ci)) \<subseteq> {p}" by auto
  have "p \<notin> add_file ` set (concat (map (added_of bl) cur))"
    using Cons.prems a unfolding mem_added by (auto simp: image_iff)
  with sub have disj: "add_file ` set (added_of bl (p, ci)) \<inter>
      add_file ` set (concat (map (added_of bl) cur)) = {}" by blast
  show ?case using Cons one disj by (simp add: a del: added_of.simps)
qed

lemma none_iff: "(map_of cur p = None) = (p \<notin> fst ` set cur)"
  by (simp add: map_of_eq_None_iff)

lemma mem_diff_modified:
  "(p \<in> mod_file ` set (modified (diff ign bl cur))) =
   (\<exists>info ci. (p, info) \<in> set bl \<and> basename p \<notin> ign \<and> map_of cur p = Some ci \<and>
       py_get info ''hash'' \<noteq> PStr (info_hash ci))"
  unfolding diff_def changes.select_convs by (rule mem_modified)

lemma mem_diff_deleted:
  "(p \<in> set (deleted (diff ign bl cur))) =
   (p \<in> fst ` set bl \<and> basename p \<notin> ign \<and> p \<notin> fst ` set cur)"
  unfolding diff_def changes.select_convs mem_deleted none_iff by (rule refl)

lemma mem_diff_added:
  "(p \<in> add_file ` set (added (diff ign bl cur))) =
   (p \<in> fst ` set cur \<and> p \<notin> fst ` set bl)"
  unfolding diff_def changes.select_convs by (rule mem_added)


lemma compare_classifies:
  assumes "\<forall>(p, info) \<in> set bl. has_key info ''hash'' \<and> has_key info ''size''"
    and "distinct (map fst bl)" and "distinct (map fst cur)"
  shows "check_changes_compare ign (PDict bl) cur = Inr (diff ign bl cur) \<and>
    (\<forall>p. same_hash_in_both bl cur p \<longrightarrow>
       p \<notin> mod_file ` set (modified (diff ign bl cur)) \<and>
       p \<notin> add_file ` set (added (diff ign bl cur)) \<and>
       p \<notin> set (deleted (diff ign bl cur)))"
proof (intro conjI allI impI)
  show "check_changes_compare ign (PDict bl) cur = Inr (diff ign bl cur)"
    using assms(1,3) by (rule compare_spec)
next
  fix p
  assume same: "same_hash_in_both bl cur p"
  then obtain info ci where look: "map_of bl p = Some info" "map_of cur p = Some ci"
    and eq: "py_get info ''hash'' = PStr (info_hash ci)"
    by (auto simp: same_hash_in_both_def split: option.splits)
  from look(1) have inbl: "(p, info) \<in> set bl" by (rule map_of_SomeD)
  then have pin: "p \<in> fst ` set bl" by force
  from look(2) have pc: "p \<in> fst ` set cur" using none_iff [of cur p] by simp
  have uniq: "\<And>i. (p, i) \<in> set bl \<Longrightarrow> i = info"
    using assms(2) look(1) by (simp add: map_of_is_SomeI)
  show "p \<notin> mod_file ` set (modified (diff ign bl cur))"
  proof
    assume "p \<in> mod_file ` set (modified (diff ign bl cur))"
    then obtain i c where ic: "(p, i) \<in> set bl" "map_of cur p = Some c"
      "py_get i ''hash'' \<noteq> PStr (info_hash c)"
      unfolding mem_diff_modified by blast
    from ic(1) have "i = info" by (rule uniq)
    moreover from ic(2) look(2) have "c = ci" by simp
    ultimately show False using ic(3) eq by simp
  qed
  show "p \<notin> add_file ` set (added (diff ign bl cur))"
    unfolding mem_diff_added using pin by simp
  show "p \<notin> set (deleted (diff ign bl cur))"
    unfolding mem_diff_deleted using pc by simp
qed

lemma compare_partition:
  assumes valid: "\<forall>(p, info) \<in> set bl. has_key info ''hash'' \<and> has_key info ''size''"
    and dbl: "distinct (map fst bl)" and dcur: "distinct (map fst cur)"
  shows "\<exists>ch. check_changes_compare ign (PDict bl) cur = Inr ch \<and>
     (\<forall>p. (p \<in> mod_file ` set (modified ch)) =
        (p \<in> fst ` set bl \<and> basename p \<notin> ign \<and> p \<in> fst ` set cur \<and>
         \<not> same_hash_in_both bl cur p)) \<and>
     (\<forall>p. (p \<in> set (deleted ch)) =
        (p \<in> fst ` set bl \<and> basename p \<notin> ign \<and> p \<notin> fst ` set cur)) \<and>
     (\<forall>p. (p \<in> add_file ` set (added ch)) = (p \<in> fst ` set cur \<and> p \<notin> fst ` set bl)) \<and>
     mod_file ` set (modified ch) \<inter> add_file ` set (added ch) = {} \<and>
     mod_file ` set (modified ch) \<inter> set (deleted ch) = {} \<and>
     add_file ` set (added ch) \<inter> set (deleted ch) = {} \<and>
     distinct (map mod_file (modified ch)) \<and> distinct (map add_file (added ch)) \<and>
     distinct (deleted ch) \<and>
     (\<forall>p. p \<in> fst ` set bl \<union> fst ` set cur \<and> \<not> (p \<in> fst ` set bl \<and> basename p \<in> ign) \<and>
          \<not> same_hash_in_both bl cur p \<longrightarrow>
          p \<in> mod_file ` set (modified ch) \<union> add_file ` set (added ch) \<union> set (deleted ch)) \<and>
     (\<forall>p. p \<in> fst ` set bl \<and> basename p \<in> ign \<longrightarrow>
          p \<notin> mod_file ` set (modified ch) \<union> add_file ` set (added ch) \<union> set (deleted ch))"
proof -
  let ?ch = "diff ign bl cur"
  have run: "check_changes_compare ign (PDict bl) cur = Inr ?ch"
    using valid dcur by (rule compare_spec)
  have m: "\<And>p. (p \<in> mod_file ` set (modified ?ch)) =
        (p \<in> fst ` set bl \<and> basename p \<notin> ign \<and> p \<in> fst ` set cur \<and>
         \<not> same_hash_in_both bl cur p)"
  proof -
    fix p
    show "(p \<in> mod_file ` set (modified ?ch)) =
        (p \<in> fst ` set bl \<and> basename p \<notin> ign \<and> p \<in> fst ` set cur \<and>
         \<not> same_hash_in_both bl cur p)"
    proof (cases "map_of bl p")
      case None
      then have "p \<notin> fst ` set bl" by (simp add: map_of_eq_None_iff)
      then show ?thesis unfolding mem_diff_modified by force
    next
      case (Some info)
      then have inbl: "(p, info) \<in> set bl" by (rule map_of_SomeD)
      have uniq: "\<And>i. (p, i) \<in> set bl \<Longrightarrow> i = info"
        using dbl Some by (simp add: map_of_is_SomeI)
      have pin: "p \<in> fst ` set bl" using inbl by force
      show ?thesis
      proof (cases "map_of cur p")
        case None
        then have "p \<notin> fst ` set cur" by (simp add: none_iff)
        with None show ?thesis
          unfolding mem_diff_modified by simp
      next
        case (Some ci)
        then have pc: "p \<in> fst ` set cur" using none_iff [of cur p] by simp
        have same: "same_hash_in_both bl cur p = (py_get info ''hash'' = PStr (info_hash ci))"
          using Some \<open>map_of bl p = Some info\<close> by (simp add: same_hash_in_both_def)
        have "(\<exists>i c. (p, i) \<in> set bl \<and> basename p \<notin> ign \<and> map_of cur p = Some c \<and>
                 py_get i ''hash'' \<noteq> PStr (info_hash c)) =
              (basename p \<notin> ign \<and> py_get info ''hash'' \<noteq> PStr (info_hash ci))"
          (is "?A = ?B")
        proof
          assume ?A
          then obtain i c where ic: "(p, i) \<in> set bl" "basename p \<notin> ign"
            "map_of cur p = Some c" "py_get i ''hash'' \<noteq> PStr (info_hash c)" by blast
          from ic(1) have "i = info" by (rule uniq)
          moreover from ic(3) Some have "c = ci" by simp
          ultimately show ?B using ic by simp
        next
          assume ?B
          with inbl Some show ?A by blast
        qed
        then show ?thesis
          unfolding mem_diff_modified using pin pc same by simp
      qed
    qed
  qed
  have d: "\<And>p. (p \<in> set (deleted ?ch)) =
        (p \<in> fst ` set bl \<and> basename p \<notin> ign \<and> p \<notin> fst ` set cur)"
    by (rule mem_diff_deleted)
  have a: "\<And>p. (p \<in> add_file ` set (added ?ch)) = (p \<in> fst ` set cur \<and> p \<notin> fst ` set bl)"
    by (rule mem_diff_added)
  have i1: "mod_file ` set (modified ?ch) \<inter> add_file ` set (added ?ch) = {}"
    by (rule Int_emptyI) (simp add: m a)
  have i2: "mod_file ` set (modified ?ch) \<inter> set (deleted ?ch) = {}"
    by (rule Int_emptyI) (simp add: m d)
  have i3: "add_file ` set (added ?ch) \<inter> set (deleted ?ch) = {}"
    by (rule Int_emptyI) (simp add: a d)
  have d1: "distinct (map mod_file (modified ?ch))"
    unfolding diff_def using dbl by (simp add: distinct_modified)
  have d2: "distinct (map add_file (added ?ch))"
    unfolding diff_def using dcur by (simp add: distinct_added)
  have d3: "distinct (deleted ?ch)"
    unfolding diff_def using dbl by (simp add: distinct_deleted)
  have cover: "\<And>p. p \<in> fst ` set bl \<union> fst ` set cur \<and>
          \<not> (p \<in> fst ` set bl \<and> basename p \<in> ign) \<and> \<not> same_hash_in_both bl cur p \<longrightarrow>
          p \<in> mod_file ` set (modified ?ch) \<union> add_file ` set (added ?ch) \<union> set (deleted ?ch)"
    unfolding Un_iff m d a by blast
  have skip: "\<And>p. p \<in> fst ` set bl \<and> basename p \<in> ign \<longrightarrow>
          p \<notin> mod_file ` set (modified ?ch) \<union> add_file ` set (added ?ch) \<union> set (deleted ?ch)"
    unfolding Un_iff m d a by blast
  show ?thesis
    by (intro exI [of _ ?ch] conjI allI) (fact run m d a i1 i2 i3 d1 d2 d3 cover skip)+
qed

section \<open>Loading a baseline\<close>

lemma validate_entries_ok:
  "list_all (\<lambda>(p, info). entry_valid info) kvs \<Longrightarrow> validate_entries kvs = Inr ()"
  by (induction kvs rule: validate_entries.induct) simp_all

lemma validate_entries_bad:
  "\<not> list_all (\<lambda>(p, info). entry_valid info) kvs \<Longrightarrow>
   \<exists>p info msg. (p, info) \<in> set kvs \<and> \<not> entry_valid info \<and>
     validate_entries kvs = Inl (Exc ValueError msg) \<and>
     (msg = ''Invalid entry for '' @ p \<or> msg = ''Missing required keys for '' @ p)"
proof (induction kvs rule: validate_entries.induct)
  case 1
  then show ?case by simp
next
  case (2 filepath entry rest)
  show ?case
  proof (cases "required_keys \<subseteq> fst ` set entry")
    case True
    with 2 obtain p info msg where "(p, info) \<in> set rest" "\<not> entry_valid info"
      "validate_entries rest = Inl (Exc ValueError msg)"
      "msg = ''Invalid entry for '' @ p \<or> msg = ''Missing required keys for '' @ p"
      by auto
    with True show ?thesis by (intro exI [of _ p] exI [of _ info] exI [of _ msg]) simp
  next
    case False
    then show ?thesis
      by (intro exI [of _ filepath] exI [of _ "PDict entry"]
          exI [of _ "''Missing required keys for '' @ filepath"]) simp
  qed
qed (force)+

lemma validate_baseline_ok: "baseline_valid v \<Longrightarrow> validate_baseline v = Inr ()"
  by (cases v) (simp_all add: validate_entries_ok)

text \<open>
  C8. When the baseline file parses to a value that is no dict, or that has an entry
  that is no dict or lacks one of \<^verbatim>\<open>hash\<close>, \<^verbatim>\<open>size\<close>, \<^verbatim>\<open>modified\<close>, \<^verbatim>\<open>created\<close>
  (an entry without \<^verbatim>\<open>size\<close> among them), the validation raises a \<^verbatim>\<open>ValueError\<close>,
  \<^verbatim>\<open>load_baseline\<close> returns \<^verbatim>\<open>False\<close>, \<^verbatim>\<open>monitor_once\<close> runs no comparison, and for a
  bad entry the message logged names the path of an offending entry.
\<close>

theorem load_baseline_rejects:
  assumes "files w (baseline_file m) = Some t"
    and "\<not> read_denied w (baseline_file m)"
    and "json_load lib t = Inr v"
    and "\<not> baseline_valid v"
  shows "\<exists>msg. validate_baseline v = Inl (Exc ValueError msg) \<and>
     load_baseline lib m w =
       Inr (False, m\<lparr>baseline := v\<rparr>, [''Invalid baseline format: '' @ msg]) \<and>
     monitor_once lib m w directory = Inr None \<and>
     (case v of
        PDict kvs \<Rightarrow>
          \<exists>p info. (p, info) \<in> set kvs \<and> \<not> entry_valid info \<and>
            (msg = ''Invalid entry for '' @ p \<or> msg = ''Missing required keys for '' @ p)
      | _ \<Rightarrow> msg = ''Invalid baseline format: expected dictionary'')"
proof -
  have "\<exists>msg. validate_baseline v = Inl (Exc ValueError msg) \<and>
     (case v of
        PDict kvs \<Rightarrow>
          \<exists>p info. (p, info) \<in> set kvs \<and> \<not> entry_valid info \<and>
            (msg = ''Invalid entry for '' @ p \<or> msg = ''Missing required keys for '' @ p)
      | _ \<Rightarrow> msg = ''Invalid baseline format: expected dictionary'')"
  proof (cases v)
    case (PDict kvs)
    with assms(4) have "\<not> list_all (\<lambda>(p, info). entry_valid info) kvs" by simp
    from validate_entries_bad [OF this] PDict show ?thesis by auto
  qed simp_all
  then obtain msg where v: "validate_baseline v = Inl (Exc ValueError msg)"
    and m: "(case v of
        PDict kvs \<Rightarrow>
          \<exists>p info. (p, info) \<in> set kvs \<and> \<not> entry_valid info \<and>
            (msg = ''Invalid entry for '' @ p \<or> msg = ''Missing required keys for '' @ p)
      | _ \<Rightarrow> msg = ''Invalid baseline format: expected dictionary'')" by blast
  have l: "load_baseline lib m w =
       Inr (False, m\<lparr>baseline := v\<rparr>, [''Invalid baseline format: '' @ msg])"
    using assms(1-3) v by (simp add: load_baseline_def load_baseline_body_def read_text_def)
  then have o: "monitor_once lib m w directory = Inr None"
    by (simp add: monitor_once_def)
  from v l o m show ?thesis by blast
qed

lemma subscript_raises:
  "subscript v k = Inl e \<Longrightarrow> exc_class_of e = KeyError \<or> exc_class_of e = TypeError"
  by (cases v) (auto split: option.splits)

lemma baseline_loop_raises:
  "baseline_loop ign cur bl ch = Inl e \<Longrightarrow>
   exc_class_of e = KeyError \<or> exc_class_of e = TypeError"
proof (induction ign cur bl ch rule: baseline_loop.induct)
  case (1 ign current_state ch)
  then show ?case by simp
next
  case (2 ign current_state filepath baseline_info rest ch)
  then show ?case
    by (auto split: if_splits option.splits sum.splits dest: subscript_raises)
qed

lemma compare_raises:
  "check_changes_compare ign b cur = Inl e \<Longrightarrow> is_Exception (exc_class_of e)"
proof (cases b)
  case (PDict bl)
  assume "check_changes_compare ign b cur = Inl e"
  with PDict have "baseline_loop ign cur bl empty_changes = Inl e"
    by (simp split: sum.splits)
  from baseline_loop_raises [OF this] show ?thesis by auto
qed auto

section \<open>Errors of the comparison, of the root and of single files\<close>

text \<open>
  C10. When the scan has returned and the comparison raises, \<^verbatim>\<open>check_changes\<close> returns
  the empty changeset with an empty current state, which is also what it returns for an
  empty directory compared with an empty baseline.
\<close>

theorem check_changes_swallows:
  assumes "scan_directory lib m w directory = Inr current_state"
    and "check_changes_compare (ignore_files m) (baseline m) current_state = Inl e"
  shows "check_changes lib m w directory = Inr (\<lparr>modified = [], added = [], deleted = []\<rparr>, []) \<and>
    check_changes lib (m\<lparr>baseline := PDict []\<rparr>) (w\<lparr>dirs := (dirs w)(directory \<mapsto> FsDir True [])\<rparr>)
      directory = check_changes lib m w directory"
proof -
  from assms(2) have "is_Exception (exc_class_of e)" by (rule compare_raises)
  with assms have a: "check_changes lib m w directory =
      Inr (\<lparr>modified = [], added = [], deleted = []\<rparr>, [])"
    by (simp add: check_changes_def empty_changes_def)
  have b: "check_changes lib (m\<lparr>baseline := PDict []\<rparr>)
      (w\<lparr>dirs := (dirs w)(directory \<mapsto> FsDir True [])\<rparr>) directory =
      Inr (\<lparr>modified = [], added = [], deleted = []\<rparr>, [])"
    by (simp add: check_changes_def scan_directory_def validate_directory_def empty_changes_def)
  from a b show ?thesis by simp
qed

text \<open>
  C6. For a root that does not exist, is no directory or cannot be listed, the
  validation raises the error of that case, and \<^verbatim>\<open>scan_directory\<close> returns the empty
  dict instead of raising.
\<close>

theorem scan_directory_invalid_root:
  assumes "\<forall>entries. dirs w directory \<noteq> Some (FsDir True entries)"
  shows "validate_directory w directory =
     (case dirs w directory of
        None \<Rightarrow> Inl (Exc ValueError (''Directory does not exist: '' @ directory))
      | Some (FsFile f) \<Rightarrow> Inl (Exc ValueError (''Path is not a directory: '' @ directory))
      | Some (FsDir listable entries) \<Rightarrow>
          Inl (Exc PermissionError (''No read permission for directory: '' @ directory))) \<and>
    scan_directory lib m w directory = Inr []"
proof (cases "dirs w directory")
  case None
  then show ?thesis by (simp add: validate_directory_def scan_directory_def)
next
  case (Some n)
  show ?thesis
  proof (cases n)
    case (FsFile f)
    with Some show ?thesis by (simp add: validate_directory_def scan_directory_def)
  next
    case (FsDir listable entries)
    with Some assms have "\<not> listable" by auto
    with Some FsDir show ?thesis by (simp add: validate_directory_def scan_directory_def)
  qed
qed

text \<open>
  C7. \<^verbatim>\<open>calculate_hash\<close> returns \<^verbatim>\<open>None\<close> when \<^verbatim>\<open>os.path.getsize\<close> or the reading
  raises an exception of class \<^verbatim>\<open>Exception\<close> (a permission error, a missing file and
  any other I/O error among them) and when the size exceeds the limit, which is 500 MiB
  after \<^verbatim>\<open>__init__\<close>; the scan then goes on with the next file.
\<close>

theorem calculate_hash_skips:
  "(\<forall>e. getsize_res f = Inl e \<and> is_Exception (exc_class_of e) \<longrightarrow>
        calculate_hash lib m f = Inr None) \<and>
   (\<forall>n e. getsize_res f = Inr n \<and> read_res f = Inl e \<and> is_Exception (exc_class_of e) \<longrightarrow>
        calculate_hash lib m f = Inr None) \<and>
   (\<forall>n. getsize_res f = Inr n \<and> max_file_size m < n \<longrightarrow>
        calculate_hash lib m f = Inr None) \<and>
   max_file_size (init_monitor resolved_baseline_file ignore_arg) = 500 * 1024 * 1024 \<and>
   (\<forall>st. calculate_hash lib m f = Inr None \<and> stat_res f = Inr st \<longrightarrow>
        get_file_info lib m f = Inr None \<and>
        scan_files lib m baseline_filename rootp ((filename, f) # rest) files_data =
        scan_files lib m baseline_filename rootp rest files_data)"
  by (auto simp: calculate_hash_def calculate_hash_body_def init_monitor_def
      get_file_info_def get_file_info_body_def)

text \<open>
  C9. When the scan returns the empty dict, as it does when the validation of the
  directory fails, \<^verbatim>\<open>create_baseline\<close> returns \<^verbatim>\<open>False\<close> and the world is the one
  before: nothing is written.
\<close>

theorem create_baseline_empty_scan:
  assumes "scan_directory lib m w directory = Inr [] \<or>
           (\<exists>e. validate_directory w directory = Inl e)"
  shows "create_baseline lib m w directory = (False, m\<lparr>baseline := PDict []\<rparr>, w)"
proof -
  have "scan_directory lib m w directory = Inr []"
    using assms
  proof
    assume "\<exists>e. validate_directory w directory = Inl e"
    then obtain e where e: "validate_directory w directory = Inl e" by blast
    then have "is_Exception (exc_class_of e)"
      by (auto simp: validate_directory_def split: option.splits fs_node.splits if_splits)
    with e show ?thesis by (simp add: scan_directory_def)
  qed
  then show ?thesis by (simp add: create_baseline_def py_of_state_def)
qed

section \<open>What the scan stores\<close>

lemma walk_files_sound:
  "(name, f) \<in> set (walk_files entries) \<Longrightarrow>
   (rootp @ [name], f) \<in> set (tree_files_entries rootp entries)"
  by (induction entries rule: walk_files.induct) auto

lemma walk_sound:
  "(r, fs) \<in> set (os_walk rootp node) \<Longrightarrow>
     \<exists>ds. r = rootp @ ds \<and> (\<forall>d \<in> set ds. keep_dir d) \<and>
       (\<forall>(name, f) \<in> set fs. (r @ [name], f) \<in> set (tree_files rootp node))"
  "(r, fs) \<in> set (os_walk_dirs rootp entries) \<Longrightarrow>
     \<exists>ds. r = rootp @ ds \<and> (\<forall>d \<in> set ds. keep_dir d) \<and>
       (\<forall>(name, f) \<in> set fs. (r @ [name], f) \<in> set (tree_files_entries rootp entries))"
proof (induction rootp node and rootp entries arbitrary: r fs and r fs
    rule: os_walk_os_walk_dirs.induct)
  case (1 rootp f)
  then show ?case by simp
next
  case (2 rootp listable entries)
  from "2.prems" have l: listable by (simp split: if_splits)
  from "2.prems" l have "(r, fs) = (rootp, walk_files entries) \<or>
      (r, fs) \<in> set (os_walk_dirs rootp entries)" by simp
  then show ?case
  proof
    assume "(r, fs) = (rootp, walk_files entries)"
    then show ?thesis by (auto intro: walk_files_sound)
  next
    assume "(r, fs) \<in> set (os_walk_dirs rootp entries)"
    from "2.IH" [OF l this] show ?thesis by simp
  qed
next
  case (3 rootp)
  then show ?case by simp
next
  case (4 rootp d n rest)
  from "4.prems" have "(is_dir n \<and> keep_dir d \<and> (r, fs) \<in> set (os_walk (rootp @ [d]) n)) \<or>
      (r, fs) \<in> set (os_walk_dirs rootp rest)" by (auto split: if_splits)
  then show ?case
  proof
    assume a: "is_dir n \<and> keep_dir d \<and> (r, fs) \<in> set (os_walk (rootp @ [d]) n)"
    then have k: "is_dir n \<and> keep_dir d" and mem: "(r, fs) \<in> set (os_walk (rootp @ [d]) n)"
      by simp_all
    from "4.IH"(1) [OF k mem] obtain ds where ds: "r = (rootp @ [d]) @ ds"
      "\<forall>d \<in> set ds. keep_dir d"
      "\<forall>(name, f) \<in> set fs. (r @ [name], f) \<in> set (tree_files (rootp @ [d]) n)" by blast
    show ?thesis
      by (rule exI [of _ "d # ds"]) (use ds k in auto)
  next
    assume "(r, fs) \<in> set (os_walk_dirs rootp rest)"
    from "4.IH"(2) [OF this] show ?thesis by auto
  qed
qed

lemma update_subset: "set (AList.update k v al) \<subseteq> insert (k, v) (set al)"
  by (induction al) auto

lemma scan_files_inv:
  assumes "\<forall>(name, f) \<in> set fs. (rootp @ [name], f) \<in> set (tree_files [] node)"
    and "\<forall>d \<in> set rootp. keep_dir d"
    and "\<forall>(k, fi) \<in> set acc. scanned lib m node k fi"
  shows "\<forall>(k, fi) \<in> set (fst (scan_files lib m (basename (baseline_file m)) rootp fs acc)).
           scanned lib m node k fi"
  using assms
proof (induction fs arbitrary: acc)
  case Nil
  then show ?case by simp
next
  case (Cons a fs)
  obtain filename f where a: "a = (filename, f)" by (cases a)
  have IH: "\<And>acc'. \<forall>(k, fi) \<in> set acc'. scanned lib m node k fi \<Longrightarrow>
      \<forall>(k, fi) \<in> set (fst (scan_files lib m (basename (baseline_file m)) rootp fs acc')).
           scanned lib m node k fi"
    using Cons.IH Cons.prems(1,2) by simp
  show ?case
  proof (cases "startswith filename ''.'' \<or> filename = basename (baseline_file m)
         \<or> filename \<in> ignore_files m")
    case True
    then show ?thesis using IH [OF Cons.prems(3)] by (simp add: a)
  next
    case False
    show ?thesis
    proof (cases "get_file_info lib m f")
      case (Inl e)
      then show ?thesis using False IH [OF Cons.prems(3)] Cons.prems(3) by (simp add: a)
    next
      case (Inr r)
      show ?thesis
      proof (cases r)
        case None
        then show ?thesis using False Inr IH [OF Cons.prems(3)] by (simp add: a)
      next
        case (Some fi)
        show ?thesis
        proof (cases "info_hash fi = []")
          case True
          then show ?thesis using False Inr Some IH [OF Cons.prems(3)] by (simp add: a)
        next
          case h: False
          have new: "scanned lib m node (path_join (rootp @ [filename])) fi"
            unfolding scanned_def
            by (rule exI [of _ rootp], rule exI [of _ filename], rule exI [of _ f])
               (use False Inr Some h Cons.prems(1,2) a in auto)
          have "\<forall>(k, fi') \<in> set (AList.update (path_join (rootp @ [filename])) fi acc).
                  scanned lib m node k fi'"
            using update_subset [of "path_join (rootp @ [filename])" fi acc] new Cons.prems(3)
            by auto
          from IH [OF this] show ?thesis using False Inr Some h by (simp add: a)
        qed
      qed
    qed
  qed
qed

lemma scan_files_distinct:
  "distinct (map fst acc) \<Longrightarrow>
   distinct (map fst (fst (scan_files lib m bf rootp fs acc)))"
  by (induction lib m bf rootp fs acc rule: scan_files.induct)
     (auto simp: distinct_update split: sum.splits option.splits)

lemma scan_walk_inv:
  assumes "\<forall>(r, fs) \<in> set ts. (\<forall>d \<in> set r. keep_dir d) \<and>
              (\<forall>(name, f) \<in> set fs. (r @ [name], f) \<in> set (tree_files [] node))"
    and "\<forall>(k, fi) \<in> set acc. scanned lib m node k fi"
  shows "\<forall>(k, fi) \<in> set (fst (scan_walk lib m (basename (baseline_file m)) ts acc)).
           scanned lib m node k fi"
  using assms
proof (induction ts arbitrary: acc)
  case Nil
  then show ?case by simp
next
  case (Cons t ts)
  obtain r fs where t: "t = (r, fs)" by (cases t)
  obtain acc' x where sf: "scan_files lib m (basename (baseline_file m)) r fs acc = (acc', x)"
    by (cases "scan_files lib m (basename (baseline_file m)) r fs acc")
  have "\<forall>(k, fi) \<in> set (fst (scan_files lib m (basename (baseline_file m)) r fs acc)).
           scanned lib m node k fi"
    by (rule scan_files_inv) (use Cons.prems t in auto)
  with sf have acc': "\<forall>(k, fi) \<in> set acc'. scanned lib m node k fi" by simp
  show ?case
  proof (cases x)
    case None
    have "\<forall>(k, fi) \<in> set (fst (scan_walk lib m (basename (baseline_file m)) ts acc')).
           scanned lib m node k fi"
      by (rule Cons.IH) (use Cons.prems acc' in auto)
    with sf None show ?thesis by (simp add: t)
  next
    case (Some e)
    with sf acc' show ?thesis by (simp add: t)
  qed
qed

lemma scan_walk_distinct:
  "distinct (map fst acc) \<Longrightarrow> distinct (map fst (fst (scan_walk lib m bf ts acc)))"
proof (induction ts arbitrary: acc)
  case Nil
  then show ?case by simp
next
  case (Cons t ts)
  obtain r fs where t: "t = (r, fs)" by (cases t)
  obtain acc' x where sf: "scan_files lib m bf r fs acc = (acc', x)"
    by (cases "scan_files lib m bf r fs acc")
  from scan_files_distinct [OF Cons.prems, of lib m bf r fs] sf
  have d: "distinct (map fst acc')" by simp
  show ?case using sf d Cons.IH [OF d] by (cases x) (simp_all add: t)
qed

lemma scan_directory_inv:
  assumes "scan_directory lib m w directory = Inr R"
  shows "distinct (map fst R) \<and>
    (R = [] \<or> (\<exists>entries. dirs w directory = Some (FsDir True entries) \<and>
       (\<forall>(k, fi) \<in> set R. scanned lib m (FsDir True entries) k fi)))"
proof (cases "validate_directory w directory")
  case (Inl e)
  with assms have "R = []" by (simp add: scan_directory_def split: if_splits)
  then show ?thesis by simp
next
  case (Inr node)
  then obtain entries where d: "dirs w directory = Some (FsDir True entries)"
    and node: "node = FsDir True entries"
    by (auto simp: validate_directory_def split: option.splits fs_node.splits if_splits)
  let ?bf = "basename (baseline_file m)"
  obtain R' x where sw: "scan_walk lib m ?bf (os_walk [] node) [] = (R', x)"
    by (cases "scan_walk lib m ?bf (os_walk [] node) []")
  with assms Inr have R: "R = R'"
    by (auto simp: scan_directory_def split: option.splits if_splits)
  have "\<forall>(r, fs) \<in> set (os_walk [] node). (\<forall>d \<in> set r. keep_dir d) \<and>
              (\<forall>(name, f) \<in> set fs. (r @ [name], f) \<in> set (tree_files [] node))"
    using walk_sound(1) [of _ _ "[]" node] by fastforce
  then have "\<forall>(k, fi) \<in> set (fst (scan_walk lib m ?bf (os_walk [] node) [])).
           scanned lib m node k fi"
    by (rule scan_walk_inv) simp
  moreover have "distinct (map fst (fst (scan_walk lib m ?bf (os_walk [] node) [])))"
    by (rule scan_walk_distinct) simp
  ultimately show ?thesis using sw R d node by auto
qed

lemma path_join_snoc:
  "path_join (ds @ [name]) = (if ds = [] then name else path_join ds @ sep # name)"
  by (induction ds rule: path_join.induct) auto

lemma basename_nosep: "sep \<notin> set name \<Longrightarrow> basename name = name"
proof -
  assume a: "sep \<notin> set name"
  have "takeWhile (\<lambda>c. c \<noteq> sep) (rev name) = rev name"
    unfolding takeWhile_eq_all_conv using a by auto
  then show ?thesis unfolding basename_def by (simp only: rev_rev_ident)
qed

lemma basename_app: "sep \<notin> set name \<Longrightarrow> basename (xs @ sep # name) = name"
proof -
  assume a: "sep \<notin> set name"
  have "takeWhile (\<lambda>c. c \<noteq> sep) (rev name) = rev name"
    unfolding takeWhile_eq_all_conv using a by auto
  then have "takeWhile (\<lambda>c. c \<noteq> sep) (rev name @ sep # rev xs) = rev name"
    by (simp only: takeWhile_tail [of "\<lambda>c. c \<noteq> sep" sep, simplified])
  then have "rev (takeWhile (\<lambda>c. c \<noteq> sep) (rev (xs @ sep # name))) = name"
    by (simp only: rev_append rev.simps append_assoc append_Cons append_Nil rev_rev_ident)
  then show ?thesis unfolding basename_def .
qed

lemma basename_join: "sep \<notin> set name \<Longrightarrow> basename (path_join (ds @ [name])) = name"
  by (simp add: path_join_snoc basename_nosep basename_app)

lemma split_path_nosep: "sep \<notin> set x \<Longrightarrow> split_path x = [x]"
  by (induction x) auto

lemma split_path_app: "sep \<notin> set x \<Longrightarrow> split_path (x @ sep # rest) = x # split_path rest"
  by (induction x) auto

lemma split_join:
  "xs \<noteq> [] \<Longrightarrow> \<forall>x \<in> set xs. sep \<notin> set x \<Longrightarrow> split_path (path_join xs) = xs"
  by (induction xs rule: path_join.induct) (simp_all add: split_path_nosep split_path_app)

lemma tree_files_names:
  "names_ok node \<Longrightarrow> (path, f) \<in> set (tree_files rootp node) \<Longrightarrow>
     \<exists>ds. path = rootp @ ds \<and> (\<forall>d \<in> set ds. sep \<notin> set d)"
  "names_ok_entries entries \<Longrightarrow> (path, f) \<in> set (tree_files_entries rootp entries) \<Longrightarrow>
     \<exists>ds. path = rootp @ ds \<and> (\<forall>d \<in> set ds. sep \<notin> set d)"
proof (induction rootp node and rootp entries arbitrary: path f and path f
    rule: tree_files_tree_files_entries.induct)
  case (1 path f)
  then show ?case by simp
next
  case (2 path listable entries)
  then show ?case by simp
next
  case (3 path)
  then show ?case by simp
next
  case (4 rootp name n rest)
  from "4.prems"(2) have "(path, f) \<in> set (tree_files (rootp @ [name]) n) \<or>
     (path, f) \<in> set (tree_files_entries rootp rest)" by simp
  then show ?case
  proof
    assume "(path, f) \<in> set (tree_files (rootp @ [name]) n)"
    with "4.IH"(1) [of path f] "4.prems"(1) obtain ds where
      "path = (rootp @ [name]) @ ds" "\<forall>d \<in> set ds. sep \<notin> set d" by auto
    with "4.prems"(1) show ?thesis by (intro exI [of _ "name # ds"]) simp
  next
    assume "(path, f) \<in> set (tree_files_entries rootp rest)"
    with "4.IH"(2) [of path f] "4.prems"(1) show ?thesis by simp
  qed
qed

lemma scanned_key:
  assumes "names_ok node" and "scanned lib m node k fi"
  shows "basename k \<notin> ignore_files m \<and> \<not> in_hidden_dir k"
proof -
  from assms(2) obtain ds name f where k: "k = path_join (ds @ [name])"
    and t: "(ds @ [name], f) \<in> set (tree_files [] node)"
    and keep: "\<forall>d \<in> set ds. keep_dir d" and ign: "name \<notin> ignore_files m"
    unfolding scanned_def by blast
  from tree_files_names(1) [OF assms(1) t] have ns: "\<forall>d \<in> set (ds @ [name]). sep \<notin> set d"
    by simp
  then have "sep \<notin> set name" by simp
  then have b: "basename k = name" unfolding k by (rule basename_join)
  have "split_path k = ds @ [name]" unfolding k by (rule split_join) (use ns in simp_all)
  then have "butlast (split_path k) = ds" by simp
  with keep have "\<not> in_hidden_dir k"
    by (auto simp: in_hidden_dir_def list_ex_iff keep_dir_def)
  with b ign show ?thesis by simp
qed

lemma scan_keys:
  assumes "world_names_ok w directory" and "scan_directory lib m w directory = Inr R"
    and "p \<in> fst ` set R"
  shows "basename p \<notin> ignore_files m \<and> \<not> in_hidden_dir p"
proof -
  from assms(3) obtain fi where pin: "(p, fi) \<in> set R" by auto
  then have "R \<noteq> []" by auto
  with scan_directory_inv [OF assms(2)] obtain entries where
    d: "dirs w directory = Some (FsDir True entries)"
    and s: "\<forall>(k, fi) \<in> set R. scanned lib m (FsDir True entries) k fi" by blast
  from d assms(1) have "names_ok (FsDir True entries)" by (simp add: world_names_ok_def)
  moreover from s pin have "scanned lib m (FsDir True entries) p fi" by auto
  ultimately show ?thesis by (rule scanned_key)
qed

lemma has_key_py_of_state:
  "\<forall>(p, info) \<in> set (map (\<lambda>(p, fi). (p, py_of_info fi)) B).
      has_key info ''hash'' \<and> has_key info ''size''"
  by (auto simp: has_key_def py_of_info_def)

text \<open>
  C4. Let the baseline be a scan of a root and the current state a later scan of the
  same root, by monitors with the same ignore set, in file systems whose names hold no
  separator. A relative path whose basename is in the ignore set, or that lies below a
  directory whose name starts with a dot, is a key of neither scan and is in none of
  the three sequences of \<^verbatim>\<open>check_changes\<close>, whatever the files hold. The log file name
  is in the ignore set of every monitor.
\<close>

theorem ignored_and_hidden_never_reported:
  assumes "world_names_ok w1 directory" and "world_names_ok w2 directory"
    and "scan_directory lib m w1 directory = Inr B"
    and "scan_directory lib m' w2 directory = Inr C"
    and "baseline m' = py_of_state B" and "ignore_files m' = ignore_files m"
    and "basename p \<in> ignore_files m \<or> in_hidden_dir p"
  shows "p \<notin> fst ` set B \<and> p \<notin> fst ` set C \<and>
    (\<exists>ch. check_changes lib m' w2 directory = Inr (ch, C) \<and>
       p \<notin> mod_file ` set (modified ch) \<and> p \<notin> add_file ` set (added ch) \<and>
       p \<notin> set (deleted ch)) \<and>
    ''fim.log'' \<in> ignore_files (init_monitor resolved_baseline_file ignore_arg)"
proof -
  let ?bl = "map (\<lambda>(p, fi). (p, py_of_info fi)) B"
  have pB: "p \<notin> fst ` set B"
    using scan_keys [OF assms(1,3), of p] assms(7) by blast
  have pC: "p \<notin> fst ` set C"
    using scan_keys [OF assms(2,4), of p] assms(6,7) by auto
  have dC: "distinct (map fst C)" using scan_directory_inv [OF assms(4)] by simp
  have cmp: "check_changes_compare (ignore_files m') (PDict ?bl) C =
      Inr (diff (ignore_files m') ?bl C)"
    using has_key_py_of_state dC by (rule compare_spec)
  then have run: "check_changes lib m' w2 directory = Inr (diff (ignore_files m') ?bl C, C)"
    using assms(4,5) by (simp add: check_changes_def py_of_state_def)
  have keys: "fst ` set ?bl = fst ` set B" by force
  have m: "p \<notin> mod_file ` set (modified (diff (ignore_files m') ?bl C))"
    unfolding mem_diff_modified using pC none_iff [of C p] by auto
  have a: "p \<notin> add_file ` set (added (diff (ignore_files m') ?bl C))"
    unfolding mem_diff_added using pC by simp
  have d: "p \<notin> set (deleted (diff (ignore_files m') ?bl C))"
    unfolding mem_diff_deleted keys using pB by simp
  have l: "''fim.log'' \<in> ignore_files (init_monitor resolved_baseline_file ignore_arg)"
    by (simp add: init_monitor_def)
  from run m a d have "\<exists>ch. check_changes lib m' w2 directory = Inr (ch, C) \<and>
       p \<notin> mod_file ` set (modified ch) \<and> p \<notin> add_file ` set (added ch) \<and>
       p \<notin> set (deleted ch)"
    by (intro exI [of _ "diff (ignore_files m') ?bl C"] conjI)
  with pB pC l show ?thesis by (intro conjI)
qed

lemma get_file_info_hash:
  "get_file_info lib m f = Inr (Some fi) \<Longrightarrow> calculate_hash lib m f = Inr (Some (info_hash fi))"
  by (auto simp: get_file_info_def get_file_info_body_def
      split: sum.splits option.splits if_splits)

lemma tree_files_prefix:
  "(path, f) \<in> set (tree_files rootp node) \<Longrightarrow> \<exists>ds. path = rootp @ ds"
  "(path, f) \<in> set (tree_files_entries rootp entries) \<Longrightarrow> \<exists>ds. path = rootp @ ds \<and> ds \<noteq> []"
proof (induction rootp node and rootp entries arbitrary: path f and path f
    rule: tree_files_tree_files_entries.induct)
  case (1 path f)
  then show ?case by simp
next
  case (2 path listable entries)
  then show ?case by fastforce
next
  case (3 path)
  then show ?case by simp
next
  case (4 rootp name n rest)
  from "4.prems" have "(path, f) \<in> set (tree_files (rootp @ [name]) n) \<or>
     (path, f) \<in> set (tree_files_entries rootp rest)" by simp
  then show ?case
  proof
    assume "(path, f) \<in> set (tree_files (rootp @ [name]) n)"
    with "4.IH"(1) [of path f] obtain ds where "path = (rootp @ [name]) @ ds" by auto
    then show ?thesis by (intro exI [of _ "name # ds"]) simp
  next
    assume "(path, f) \<in> set (tree_files_entries rootp rest)"
    with "4.IH"(2) [of path f] show ?thesis by simp
  qed
qed

text \<open>
  C5. Every record of the dict that \<^verbatim>\<open>scan_directory\<close> returns has a non-empty hash,
  the one \<^verbatim>\<open>calculate_hash\<close> returned for a file of the tree at that path; and, in a
  tree where a path names one file, the path of a file for which \<^verbatim>\<open>calculate_hash\<close>
  returned \<^verbatim>\<open>None\<close> is no key of the dict.
\<close>

theorem scan_records_have_hash:
  assumes "scan_directory lib m w directory = Inr R"
  shows "(\<forall>(k, fi) \<in> set R. info_hash fi \<noteq> [] \<and>
      (\<exists>node path f. dirs w directory = Some node \<and> (path, f) \<in> set (tree_files [] node) \<and>
         k = path_join path \<and> get_file_info lib m f = Inr (Some fi) \<and>
         calculate_hash lib m f = Inr (Some (info_hash fi)))) \<and>
    (\<forall>node path f. dirs w directory = Some node \<and> names_ok node \<and>
       distinct (map fst (tree_files [] node)) \<and> (path, f) \<in> set (tree_files [] node) \<and>
       calculate_hash lib m f = Inr None \<longrightarrow> path_join path \<notin> fst ` set R)"
proof (intro conjI allI impI)
  show "\<forall>(k, fi) \<in> set R. info_hash fi \<noteq> [] \<and>
      (\<exists>node path f. dirs w directory = Some node \<and> (path, f) \<in> set (tree_files [] node) \<and>
         k = path_join path \<and> get_file_info lib m f = Inr (Some fi) \<and>
         calculate_hash lib m f = Inr (Some (info_hash fi)))"
  proof (cases "R = []")
    case True
    then show ?thesis by simp
  next
    case False
    with scan_directory_inv [OF assms] obtain entries where
      d: "dirs w directory = Some (FsDir True entries)"
      and s: "\<forall>(k, fi) \<in> set R. scanned lib m (FsDir True entries) k fi" by blast
    show ?thesis
    proof (intro ballI, clarify)
      fix k fi
      assume "(k, fi) \<in> set R"
      with s have "scanned lib m (FsDir True entries) k fi" by auto
      then obtain ds name f where k: "k = path_join (ds @ [name])"
        and t: "(ds @ [name], f) \<in> set (tree_files [] (FsDir True entries))"
        and g: "get_file_info lib m f = Inr (Some fi)" and h: "info_hash fi \<noteq> []"
        unfolding scanned_def by blast
      from g have "calculate_hash lib m f = Inr (Some (info_hash fi))"
        by (rule get_file_info_hash)
      then have "\<exists>node path f. dirs w directory = Some node \<and>
           (path, f) \<in> set (tree_files [] node) \<and>
           k = path_join path \<and> get_file_info lib m f = Inr (Some fi) \<and>
           calculate_hash lib m f = Inr (Some (info_hash fi))"
        using d k t g
        by (intro exI [of _ "FsDir True entries"] exI [of _ "ds @ [name]"] exI [of _ f]) simp
      with h show "info_hash fi \<noteq> [] \<and>
        (\<exists>node path f. dirs w directory = Some node \<and> (path, f) \<in> set (tree_files [] node) \<and>
           k = path_join path \<and> get_file_info lib m f = Inr (Some fi) \<and>
           calculate_hash lib m f = Inr (Some (info_hash fi)))" by (rule conjI)
    qed
  qed
next
  fix node path f
  assume a: "dirs w directory = Some node \<and> names_ok node \<and>
       distinct (map fst (tree_files [] node)) \<and> (path, f) \<in> set (tree_files [] node) \<and>
       calculate_hash lib m f = Inr None"
  show "path_join path \<notin> fst ` set R"
  proof
    assume "path_join path \<in> fst ` set R"
    then obtain fi where pin: "(path_join path, fi) \<in> set R" by auto
    then have "R \<noteq> []" by auto
    with scan_directory_inv [OF assms] obtain entries where
      d: "dirs w directory = Some (FsDir True entries)"
      and s: "\<forall>(k, fi) \<in> set R. scanned lib m (FsDir True entries) k fi" by blast
    from d a have node: "node = FsDir True entries" by simp
    from s pin have "scanned lib m node (path_join path) fi" unfolding node by auto
    then obtain ds name f' where k: "path_join path = path_join (ds @ [name])"
      and t: "(ds @ [name], f') \<in> set (tree_files [] node)"
      and g: "get_file_info lib m f' = Inr (Some fi)"
      unfolding scanned_def by blast
    from a have ok: "names_ok node" and pf: "(path, f) \<in> set (tree_files [] node)" by simp_all
    from tree_files_names(1) [OF ok pf] have n1: "\<forall>d \<in> set path. sep \<notin> set d" by simp
    from tree_files_names(1) [OF ok t] have n2: "\<forall>d \<in> set (ds @ [name]). sep \<notin> set d" by simp
    from pf have "path \<noteq> []" using tree_files_prefix(2) [of path f "[]" entries]
      unfolding node by auto
    then have e1: "split_path (path_join path) = path" using n1 by (rule split_join)
    have e2: "split_path (path_join (ds @ [name])) = ds @ [name]"
      by (rule split_join) (use n2 in simp_all)
    have "path = split_path (path_join path)" by (rule e1 [symmetric])
    also have "\<dots> = split_path (path_join (ds @ [name]))" by (simp only: k)
    also have "\<dots> = ds @ [name]" by (rule e2)
    finally have "path = ds @ [name]" .
    with t have pf': "(path, f') \<in> set (tree_files [] node)" by (simp only:)
    from a have dist: "distinct (map fst (tree_files [] node))" by simp
    have "f = f'" using dist pf pf' by (rule eq_key_imp_eq_value)
    with g have "calculate_hash lib m f = Inr (Some (info_hash fi))"
      by (simp add: get_file_info_hash)
    with a show False by simp
  qed
qed

section \<open>The changeset of \<^verbatim>\<open>check_changes\<close>\<close>

text \<open>
  C1. For every baseline whose records have a hash and a size, and every current scan
  that \<^verbatim>\<open>scan_directory\<close> returns, \<^verbatim>\<open>check_changes\<close> returns the current scan with exactly
  the changeset of the three steps: a modified entry with old and new hash and size for
  every baseline path that is not ignored, is in the current scan and differs in hash;
  a deleted entry for every such path absent from the current scan; an added entry with
  hash and size for every current path absent from the baseline; and a path in both
  with equal hashes is in none of the three sequences. The comparison does the same on
  every current mapping with distinct keys.
\<close>

theorem check_changes_classifies:
  assumes "baseline m = PDict bl"
    and "\<forall>(p, info) \<in> set bl. has_key info ''hash'' \<and> has_key info ''size''"
    and "distinct (map fst bl)"
    and "scan_directory lib m w directory = Inr cur"
  shows "check_changes lib m w directory = Inr (diff (ignore_files m) bl cur, cur) \<and>
    (\<forall>p. same_hash_in_both bl cur p \<longrightarrow>
       p \<notin> mod_file ` set (modified (diff (ignore_files m) bl cur)) \<and>
       p \<notin> add_file ` set (added (diff (ignore_files m) bl cur)) \<and>
       p \<notin> set (deleted (diff (ignore_files m) bl cur))) \<and>
    (\<forall>cur'. distinct (map fst cur') \<longrightarrow>
       check_changes_compare (ignore_files m) (baseline m) cur' =
         Inr (diff (ignore_files m) bl cur'))"
proof -
  have dc: "distinct (map fst cur)" using scan_directory_inv [OF assms(4)] by simp
  from compare_classifies [OF assms(2,3) dc, of "ignore_files m"]
  have cmp: "check_changes_compare (ignore_files m) (PDict bl) cur =
      Inr (diff (ignore_files m) bl cur)"
    and same: "\<forall>p. same_hash_in_both bl cur p \<longrightarrow>
       p \<notin> mod_file ` set (modified (diff (ignore_files m) bl cur)) \<and>
       p \<notin> add_file ` set (added (diff (ignore_files m) bl cur)) \<and>
       p \<notin> set (deleted (diff (ignore_files m) bl cur))"
    by simp_all
  have run: "check_changes lib m w directory = Inr (diff (ignore_files m) bl cur, cur)"
    using assms(1,4) cmp by (simp add: check_changes_def)
  have gen: "\<forall>cur'. distinct (map fst cur') \<longrightarrow>
       check_changes_compare (ignore_files m) (baseline m) cur' =
         Inr (diff (ignore_files m) bl cur')"
    using compare_spec [OF assms(2)] assms(1) by simp
  from run same gen show ?thesis by (intro conjI)
qed

text \<open>
  C2, amended. For every baseline whose records have a hash and a size and every
  current scan that \<^verbatim>\<open>scan_directory\<close> returns, the three sequences of the changeset
  that \<^verbatim>\<open>check_changes\<close> returns are characterised by membership and hash equality,
  with the baseline paths whose basename is ignored left out of modified and deleted;
  no path is in two sequences or twice in one; every path of the union that is not an
  ignored baseline path and not an equal-hash member of both is in one of them; an
  ignored baseline path is in none.
\<close>

theorem changes_partition:
  assumes "baseline m = PDict bl"
    and "\<forall>(p, info) \<in> set bl. has_key info ''hash'' \<and> has_key info ''size''"
    and "distinct (map fst bl)"
    and "scan_directory lib m w directory = Inr cur"
  shows "\<exists>ch. check_changes lib m w directory = Inr (ch, cur) \<and>
     (\<forall>p. (p \<in> mod_file ` set (modified ch)) =
        (p \<in> fst ` set bl \<and> basename p \<notin> ignore_files m \<and> p \<in> fst ` set cur \<and>
         \<not> same_hash_in_both bl cur p)) \<and>
     (\<forall>p. (p \<in> set (deleted ch)) =
        (p \<in> fst ` set bl \<and> basename p \<notin> ignore_files m \<and> p \<notin> fst ` set cur)) \<and>
     (\<forall>p. (p \<in> add_file ` set (added ch)) = (p \<in> fst ` set cur \<and> p \<notin> fst ` set bl)) \<and>
     mod_file ` set (modified ch) \<inter> add_file ` set (added ch) = {} \<and>
     mod_file ` set (modified ch) \<inter> set (deleted ch) = {} \<and>
     add_file ` set (added ch) \<inter> set (deleted ch) = {} \<and>
     distinct (map mod_file (modified ch)) \<and> distinct (map add_file (added ch)) \<and>
     distinct (deleted ch) \<and>
     (\<forall>p. p \<in> fst ` set bl \<union> fst ` set cur \<and>
          \<not> (p \<in> fst ` set bl \<and> basename p \<in> ignore_files m) \<and>
          \<not> same_hash_in_both bl cur p \<longrightarrow>
          p \<in> mod_file ` set (modified ch) \<union> add_file ` set (added ch) \<union> set (deleted ch)) \<and>
     (\<forall>p. p \<in> fst ` set bl \<and> basename p \<in> ignore_files m \<longrightarrow>
          p \<notin> mod_file ` set (modified ch) \<union> add_file ` set (added ch) \<union> set (deleted ch))"
proof -
  have dc: "distinct (map fst cur)" using scan_directory_inv [OF assms(4)] by simp
  from compare_partition [OF assms(2,3) dc, of "ignore_files m"]
  obtain ch where cmp: "check_changes_compare (ignore_files m) (PDict bl) cur = Inr ch"
    and rest: "(\<forall>p. (p \<in> mod_file ` set (modified ch)) =
        (p \<in> fst ` set bl \<and> basename p \<notin> ignore_files m \<and> p \<in> fst ` set cur \<and>
         \<not> same_hash_in_both bl cur p)) \<and>
     (\<forall>p. (p \<in> set (deleted ch)) =
        (p \<in> fst ` set bl \<and> basename p \<notin> ignore_files m \<and> p \<notin> fst ` set cur)) \<and>
     (\<forall>p. (p \<in> add_file ` set (added ch)) = (p \<in> fst ` set cur \<and> p \<notin> fst ` set bl)) \<and>
     mod_file ` set (modified ch) \<inter> add_file ` set (added ch) = {} \<and>
     mod_file ` set (modified ch) \<inter> set (deleted ch) = {} \<and>
     add_file ` set (added ch) \<inter> set (deleted ch) = {} \<and>
     distinct (map mod_file (modified ch)) \<and> distinct (map add_file (added ch)) \<and>
     distinct (deleted ch) \<and>
     (\<forall>p. p \<in> fst ` set bl \<union> fst ` set cur \<and>
          \<not> (p \<in> fst ` set bl \<and> basename p \<in> ignore_files m) \<and>
          \<not> same_hash_in_both bl cur p \<longrightarrow>
          p \<in> mod_file ` set (modified ch) \<union> add_file ` set (added ch) \<union> set (deleted ch)) \<and>
     (\<forall>p. p \<in> fst ` set bl \<and> basename p \<in> ignore_files m \<longrightarrow>
          p \<notin> mod_file ` set (modified ch) \<union> add_file ` set (added ch) \<union> set (deleted ch))"
    by (elim exE conjE) (rule that, assumption, intro conjI, assumption+)
  have run: "check_changes lib m w directory = Inr (ch, cur)"
    using assms(1,4) cmp by (simp add: check_changes_def)
  show ?thesis by (rule exI [of _ ch]) (rule conjI [OF run rest])
qed

section \<open>The decoder reads what the encoder writes\<close>

subsection \<open>Digits and decimals\<close>

lemma nat_of_digits_snoc: "nat_of_digits (xs @ [d]) = 10 * nat_of_digits xs + d"
  by (simp add: nat_of_digits_def)

lemma nat_of_digits_digits: "nat_of_digits (digits n) = n"
proof (induction n rule: digits.induct)
  case (1 n)
  show ?case
  proof (cases "n < 10")
    case True
    then show ?thesis by (simp add: digits.simps [of n] nat_of_digits_def)
  next
    case False
    with 1 show ?thesis by (simp add: digits.simps [of n] nat_of_digits_snoc)
  qed
qed

lemma digits_lt10: "d \<in> set (digits n) \<Longrightarrow> d < 10"
proof (induction n rule: digits.induct)
  case (1 n)
  show ?case
  proof (cases "n < 10")
    case True
    with "1.prems" show ?thesis by (simp add: digits.simps [of n])
  next
    case False
    with 1 show ?thesis by (auto simp: digits.simps [of n])
  qed
qed

lemma digits_nonempty: "digits n \<noteq> []"
  by (subst digits.simps) simp

lemma hd_digits: "n \<noteq> 0 \<Longrightarrow> hd (digits n) \<noteq> 0"
proof (induction n rule: digits.induct)
  case (1 n)
  show ?case
  proof (cases "n < 10")
    case True
    with "1.prems" show ?thesis by (simp add: digits.simps [of n])
  next
    case False
    then have "n div 10 \<noteq> 0" by simp
    with 1 False show ?thesis by (simp add: digits.simps [of n] digits_nonempty)
  qed
qed

lemma digits_0: "digits 0 = [0]"
  by (simp add: digits.simps)

lemma is_digit_digit_char: "d < 10 \<Longrightarrow> is_digit (digit_char d)"
  by (simp add: is_digit_def digit_char_def)

lemma digit_val_digit_char: "d < 10 \<Longrightarrow> digit_val (digit_char d) = d"
  by (simp add: digit_val_def digit_char_def)

lemma digit_char_zero: "d < 10 \<Longrightarrow> (digit_char d = CHR ''0'') = (d = 0)"
proof -
  assume d: "d < 10"
  have "(digit_char d = CHR ''0'') = ((of_char (digit_char d) :: nat) = of_char (CHR ''0''))"
    by (simp only: of_char_eq_iff)
  also have "\<dots> = (d = 0)" using d by (simp add: digit_char_def)
  finally show ?thesis .
qed

lemma str_nat_digits: "list_all is_digit (str_nat n)"
  by (simp add: str_nat_def list_all_iff is_digit_digit_char digits_lt10)

lemma str_nat_nonempty: "str_nat n \<noteq> []"
  by (simp add: str_nat_def digits_nonempty)

lemma int_of_str_str_nat: "int_of_str (str_nat n) = n"
proof -
  have "map digit_val (map digit_char (digits n)) = digits n"
    by (simp add: map_idI digit_val_digit_char digits_lt10)
  then show ?thesis by (simp add: int_of_str_def str_nat_def nat_of_digits_digits)
qed

lemma hd_str_nat: "n \<noteq> 0 \<Longrightarrow> hd (str_nat n) \<noteq> CHR ''0''"
proof -
  assume n: "n \<noteq> 0"
  have "hd (str_nat n) = digit_char (hd (digits n))"
    by (simp add: str_nat_def hd_map digits_nonempty)
  moreover have "hd (digits n) < 10" using digits_lt10 [of "hd (digits n)" n] digits_nonempty [of n]
    by simp
  ultimately show ?thesis using hd_digits [OF n] by (simp add: digit_char_zero)
qed

lemma str_nat_0: "str_nat 0 = ''0''"
  by (simp add: str_nat_def digits_0 digit_char_def char_of_eq_iff)

lemma int_of_str_append:
  "int_of_str (xs @ ys) = int_of_str xs * 10 ^ length ys + int_of_str ys"
proof (induction ys rule: rev_induct)
  case Nil
  show ?case by (simp add: int_of_str_def nat_of_digits_def)
next
  case (snoc y ys)
  have "int_of_str (xs @ ys @ [y]) = 10 * int_of_str (xs @ ys) + digit_val y"
    by (simp add: int_of_str_def nat_of_digits_def)
  moreover have "int_of_str (ys @ [y]) = 10 * int_of_str ys + digit_val y"
    by (simp add: int_of_str_def nat_of_digits_def)
  ultimately show ?case using snoc by (simp add: algebra_simps)
qed

lemma int_of_str_zeros: "int_of_str (replicate k CHR ''0'') = 0"
proof (induction k)
  case 0
  show ?case by (simp add: int_of_str_def nat_of_digits_def)
next
  case (Suc k)
  have "replicate (Suc k) CHR ''0'' = replicate k CHR ''0'' @ ''0''"
    by (simp add: replicate_append_same)
  then have "int_of_str (replicate (Suc k) CHR ''0'') =
      int_of_str (replicate k CHR ''0'') * 10 ^ length ''0'' + int_of_str ''0''"
    by (simp only: int_of_str_append)
  also have "\<dots> = 0" using Suc by (simp add: int_of_str_def nat_of_digits_def digit_val_def)
  finally show ?case .
qed

lemma span_digits:
  "list_all is_digit ds \<Longrightarrow> r = [] \<or> \<not> is_digit (hd r) \<Longrightarrow>
   takeWhile is_digit (ds @ r) = ds \<and> dropWhile is_digit (ds @ r) = r"
  by (induction ds) (auto simp: neq_Nil_conv takeWhile_eq_Nil_iff dropWhile_eq_self_iff)

lemma strip_zeros_id: "m mod 10 \<noteq> 0 \<Longrightarrow> strip_zeros m e = (m, e)"
  by (simp add: strip_zeros.simps)

lemma strip_zeros_pow: "m \<noteq> 0 \<Longrightarrow> strip_zeros (m * 10 ^ k) e = strip_zeros m (e + int k)"
proof (induction k arbitrary: e)
  case 0
  show ?case by simp
next
  case (Suc k)
  have "strip_zeros (m * 10 ^ Suc k) e = strip_zeros (m * 10 ^ k) (e + 1)"
    using Suc.prems by (subst strip_zeros.simps) simp
  also have "\<dots> = strip_zeros m (e + 1 + int k)" using Suc by simp
  finally show ?case by (simp add: add.commute add.left_commute)
qed

lemma float_of_decimal_pow:
  "float_ok (Finite neg m e) \<Longrightarrow>
   float_of_decimal neg (m * 10 ^ k) (e - int k) = Finite neg m e"
proof (cases "m = 0")
  case True
  assume "float_ok (Finite neg m e)"
  with True show ?thesis by (simp add: float_of_decimal_def)
next
  case False
  assume "float_ok (Finite neg m e)"
  with False have m: "m mod 10 \<noteq> 0" by simp
  have "strip_zeros (m * 10 ^ k) (e - int k) = strip_zeros m e"
    using strip_zeros_pow [OF False, of k "e - int k"] by simp
  also have "\<dots> = (m, e)" using m by (rule strip_zeros_id)
  finally show ?thesis using False by (simp add: float_of_decimal_def)
qed

subsection \<open>The number token\<close>

lemma follow_nd: "follow r \<Longrightarrow> r = [] \<or> \<not> is_digit (hd r)"
  by (auto simp: follow_def is_digit_def)

lemma int_part_ok:
  "valid_int ip \<Longrightarrow> r = [] \<or> \<not> is_digit (hd r) \<Longrightarrow> int_part (ip @ r) = Some (ip, r)"
proof -
  assume v: "valid_int ip" and r: "r = [] \<or> \<not> is_digit (hd r)"
  show ?thesis
  proof (cases "ip = ''0''")
    case True
    then show ?thesis by simp
  next
    case False
    with v obtain c cs where ip: "ip = c # cs" and d: "list_all is_digit (c # cs)"
      and c: "c \<noteq> CHR ''0''" by (cases ip) (auto simp: valid_int_def)
    from d have dc: "is_digit c" and dcs: "list_all is_digit cs" by simp_all
    from span_digits [OF dcs r] show ?thesis using c dc by (simp add: ip)
  qed
qed

lemma frac_some:
  "fp \<noteq> [] \<Longrightarrow> list_all is_digit fp \<Longrightarrow> r = [] \<or> \<not> is_digit (hd r) \<Longrightarrow>
   frac_part (CHR ''.'' # fp @ r) = (fp, r)"
proof -
  assume "fp \<noteq> []" and d: "list_all is_digit fp" and r: "r = [] \<or> \<not> is_digit (hd r)"
  then obtain c cs where fp: "fp = c # cs" by (cases fp) auto
  from d fp have dc: "is_digit c" and dcs: "list_all is_digit cs" by simp_all
  from span_digits [OF dcs r] show ?thesis using dc by (simp add: fp)
qed

lemma frac_none: "r = [] \<or> hd r \<noteq> CHR ''.'' \<Longrightarrow> frac_part r = ([], r)"
  by (cases r rule: frac_part.cases) auto

lemma exp_some:
  "ds \<noteq> [] \<Longrightarrow> list_all is_digit ds \<Longrightarrow> r = [] \<or> \<not> is_digit (hd r) \<Longrightarrow>
   sg = CHR ''+'' \<or> sg = CHR ''-'' \<Longrightarrow>
   exp_part (CHR ''e'' # sg # ds @ r) =
     (Some ((if sg = CHR ''-'' then - 1 else 1) * int (int_of_str ds)), r)"
proof -
  assume "ds \<noteq> []" and d: "list_all is_digit ds" and r: "r = [] \<or> \<not> is_digit (hd r)"
    and sg: "sg = CHR ''+'' \<or> sg = CHR ''-''"
  then obtain c cs where ds: "ds = c # cs" by (cases ds) auto
  from d ds have dc: "is_digit c" and dcs: "list_all is_digit cs" by simp_all
  from span_digits [OF dcs r] show ?thesis using dc sg by (auto simp: ds)
qed

lemma exp_none:
  "r = [] \<or> (hd r \<noteq> CHR ''e'' \<and> hd r \<noteq> CHR ''E'') \<Longrightarrow> exp_part r = (None, r)"
  by (cases r rule: exp_part.cases) auto

lemma not_digit_chars:
  "\<not> is_digit CHR ''.''" "\<not> is_digit CHR ''e''" "\<not> is_digit CHR ''-''" "\<not> is_digit CHR ''+''"
  "is_digit CHR ''0''"
  by (simp_all add: is_digit_def)

lemma follow_facts:
  assumes "follow r"
  shows "r = [] \<or> hd r \<noteq> CHR ''.''" "r = [] \<or> (hd r \<noteq> CHR ''e'' \<and> hd r \<noteq> CHR ''E'')"
  using assms by (auto simp: follow_def)

lemma unsigned_int:
  assumes "valid_int ip" "follow r"
  shows "parse_unsigned neg (ip @ r) = Some (PInt ((if neg then - 1 else 1) * int (int_of_str ip)), r)"
  using int_part_ok [OF assms(1) follow_nd [OF assms(2)]]
    frac_none [OF follow_facts(1) [OF assms(2)]] exp_none [OF follow_facts(2) [OF assms(2)]]
  by (simp add: parse_unsigned_def)

lemma unsigned_frac:
  assumes "valid_int ip" "fp \<noteq> []" "list_all is_digit fp" "follow r"
  shows "parse_unsigned neg (ip @ CHR ''.'' # fp @ r) =
    Some (PFloat (float_of_decimal neg (int_of_str (ip @ fp)) (- int (length fp))), r)"
proof -
  have 1: "int_part (ip @ CHR ''.'' # fp @ r) = Some (ip, CHR ''.'' # fp @ r)"
    by (rule int_part_ok [OF assms(1)]) (simp add: not_digit_chars)
  have 2: "frac_part (CHR ''.'' # fp @ r) = (fp, r)"
    by (rule frac_some [OF assms(2,3) follow_nd [OF assms(4)]])
  have 3: "exp_part r = (None, r)" by (rule exp_none [OF follow_facts(2) [OF assms(4)]])
  show ?thesis using assms(2) by (simp add: parse_unsigned_def 1 2 3)
qed

lemma unsigned_frac_exp:
  assumes "valid_int ip" "fp \<noteq> []" "list_all is_digit fp" "ds \<noteq> []" "list_all is_digit ds"
    "sg = CHR ''+'' \<or> sg = CHR ''-''" "follow r"
  shows "parse_unsigned neg (ip @ CHR ''.'' # fp @ CHR ''e'' # sg # ds @ r) =
    Some (PFloat (float_of_decimal neg (int_of_str (ip @ fp))
      ((if sg = CHR ''-'' then - 1 else 1) * int (int_of_str ds) - int (length fp))), r)"
proof -
  have 1: "int_part (ip @ CHR ''.'' # fp @ CHR ''e'' # sg # ds @ r) =
      Some (ip, CHR ''.'' # fp @ CHR ''e'' # sg # ds @ r)"
    by (rule int_part_ok [OF assms(1)]) (simp add: not_digit_chars)
  have 2: "frac_part (CHR ''.'' # fp @ CHR ''e'' # sg # ds @ r) = (fp, CHR ''e'' # sg # ds @ r)"
    by (rule frac_some [OF assms(2,3)]) (simp add: not_digit_chars)
  have 3: "exp_part (CHR ''e'' # sg # ds @ r) =
      (Some ((if sg = CHR ''-'' then - 1 else 1) * int (int_of_str ds)), r)"
    by (rule exp_some [OF assms(4,5) follow_nd [OF assms(7)] assms(6)])
  show ?thesis by (simp add: parse_unsigned_def 1 2 3)
qed

lemma unsigned_exp:
  assumes "valid_int ip" "ds \<noteq> []" "list_all is_digit ds"
    "sg = CHR ''+'' \<or> sg = CHR ''-''" "follow r"
  shows "parse_unsigned neg (ip @ CHR ''e'' # sg # ds @ r) =
    Some (PFloat (float_of_decimal neg (int_of_str ip)
      ((if sg = CHR ''-'' then - 1 else 1) * int (int_of_str ds))), r)"
proof -
  have 1: "int_part (ip @ CHR ''e'' # sg # ds @ r) = Some (ip, CHR ''e'' # sg # ds @ r)"
    by (rule int_part_ok [OF assms(1)]) (simp add: not_digit_chars)
  have 2: "frac_part (CHR ''e'' # sg # ds @ r) = ([], CHR ''e'' # sg # ds @ r)"
    by (rule frac_none) simp
  have 3: "exp_part (CHR ''e'' # sg # ds @ r) =
      (Some ((if sg = CHR ''-'' then - 1 else 1) * int (int_of_str ds)), r)"
    by (rule exp_some [OF assms(2,3) follow_nd [OF assms(5)] assms(4)])
  show ?thesis by (simp add: parse_unsigned_def 1 2 3)
qed

lemma valid_int_str_nat: "valid_int (str_nat n)"
proof (cases "n = 0")
  case True
  then show ?thesis by (simp add: valid_int_def str_nat_0)
next
  case False
  then show ?thesis
    by (simp add: valid_int_def str_nat_nonempty str_nat_digits hd_str_nat)
qed

lemma is_digit_not_minus: "is_digit c \<Longrightarrow> c \<noteq> CHR ''-''"
  by (auto simp: is_digit_def)

lemma valid_int_hd: "valid_int ip \<Longrightarrow> ip \<noteq> [] \<and> is_digit (hd ip)"
  by (cases ip) (auto simp: valid_int_def is_digit_def)

lemma parse_number_unsigned:
  "s \<noteq> [] \<Longrightarrow> is_digit (hd s) \<Longrightarrow> parse_number (s @ r) = parse_unsigned False (s @ r)"
  by (cases s) (auto dest: is_digit_not_minus)

lemma parse_number_int: "follow r \<Longrightarrow> parse_number (str_int i @ r) = Some (PInt i, r)"
proof (cases "i < 0")
  case True
  assume f: "follow r"
  have "parse_number (str_int i @ r) = parse_unsigned True (str_nat (nat (- i)) @ r)"
    using True by (simp add: str_int_def)
  also have "\<dots> = Some (PInt (- 1 * int (int_of_str (str_nat (nat (- i))))), r)"
    using unsigned_int [OF valid_int_str_nat f, where neg = True] by simp
  finally show ?thesis using True by (simp add: int_of_str_str_nat)
next
  case False
  assume f: "follow r"
  have "parse_number (str_int i @ r) = parse_unsigned False (str_nat (nat i) @ r)"
    using False valid_int_hd [OF valid_int_str_nat, of "nat i"]
    by (simp add: str_int_def parse_number_unsigned)
  also have "\<dots> = Some (PInt (int (int_of_str (str_nat (nat i)))), r)"
    using unsigned_int [OF valid_int_str_nat f, where neg = False] by simp
  finally show ?thesis using False by (simp add: int_of_str_str_nat)
qed

lemma exp_digits_facts:
  "exp_digits x \<noteq> []" "list_all is_digit (exp_digits x)" "int_of_str (exp_digits x) = x"
proof -
  show "exp_digits x \<noteq> []" by (simp add: exp_digits_def str_nat_nonempty)
  show "list_all is_digit (exp_digits x)"
    by (simp add: exp_digits_def str_nat_digits is_digit_digit_char not_digit_chars)
  show "int_of_str (exp_digits x) = x"
  proof (cases "x < 10")
    case True
    have "digit_val CHR ''0'' = 0" by (simp add: digit_val_def)
    with True show ?thesis
      by (simp add: exp_digits_def int_of_str_def nat_of_digits_def digit_val_digit_char)
  next
    case False
    then show ?thesis by (simp add: exp_digits_def int_of_str_str_nat)
  qed
qed

lemma zeros_digits: "list_all is_digit (replicate k CHR ''0'')"
  by (induction k) (simp_all add: not_digit_chars)

lemma float_of_decimal_id:
  "float_ok (Finite neg m e) \<Longrightarrow> float_of_decimal neg m e = Finite neg m e"
  using float_of_decimal_pow [of neg m e 0] by simp

lemma body_parse:
  assumes ok: "float_ok (Finite neg m e)" and f: "follow r"
  shows "parse_unsigned neg (float_body m e @ r) = Some (PFloat (Finite neg m e), r)"
proof -
  define ds where "ds = str_nat m"
  define n where "n = int (length ds)"
  define decpt where "decpt = n + e"
  have dne: "ds \<noteq> []" and dd: "list_all is_digit ds" and dv: "int_of_str ds = m"
    by (simp_all add: ds_def str_nat_nonempty str_nat_digits int_of_str_str_nat)
  have n1: "1 \<le> n" using dne by (cases ds) (simp_all add: n_def)
  have fb: "float_body m e = float_layout ds decpt"
    by (simp add: float_body_def ds_def n_def decpt_def)
  have zero: "m = 0 \<Longrightarrow> ds = ''0'' \<and> n = 1 \<and> e = 0 \<and> decpt = 1"
    using ok by (simp add: ds_def n_def decpt_def str_nat_0)
  have hd0: "m \<noteq> 0 \<Longrightarrow> hd ds \<noteq> CHR ''0''" by (simp add: ds_def hd_str_nat)
  obtain c cs where dcs: "ds = c # cs" using dne by (cases ds) auto
  have dc: "is_digit c" and dcs': "list_all is_digit cs" using dd dcs by simp_all
  have ncs: "n = 1 + int (length cs)" by (simp add: n_def dcs)
  consider (A) "decpt \<le> - 4 \<or> 16 < decpt"
    | (B) "\<not> (decpt \<le> - 4 \<or> 16 < decpt)" "decpt \<le> 0"
    | (C) "\<not> (decpt \<le> - 4 \<or> 16 < decpt)" "\<not> decpt \<le> 0" "n \<le> decpt"
    | (D) "\<not> (decpt \<le> - 4 \<or> 16 < decpt)" "\<not> decpt \<le> 0" "\<not> n \<le> decpt"
    by blast
  then show ?thesis
  proof cases
    case A
    have m0: "m \<noteq> 0"
    proof
      assume "m = 0"
      from zero [OF this] A show False by simp
    qed
    then have c0: "c \<noteq> CHR ''0''" using hd0 dcs by simp
    have vi: "valid_int [c]" using dc c0 by (simp add: valid_int_def)
    define sg where "sg = (if decpt - 1 < 0 then CHR ''-'' else CHR ''+'')"
    define x where "x = nat \<bar>decpt - 1\<bar>"
    have sgs: "sg = CHR ''+'' \<or> sg = CHR ''-''" by (simp add: sg_def)
    have ev: "(if sg = CHR ''-'' then - 1 else 1) * int (int_of_str (exp_digits x)) = decpt - 1"
      by (simp add: sg_def x_def exp_digits_facts)
    show ?thesis
    proof (cases "cs = []")
      case True
      then have n: "n = 1" using ncs by simp
      have body: "float_body m e = [c] @ CHR ''e'' # sg # exp_digits x"
        using A True unfolding fb
        by (simp add: float_layout_def dcs sg_def x_def)
      have "parse_unsigned neg (([c] @ CHR ''e'' # sg # exp_digits x) @ r) =
          Some (PFloat (float_of_decimal neg (int_of_str [c]) (decpt - 1)), r)"
        using unsigned_exp [OF vi exp_digits_facts(1) [of x] exp_digits_facts(2) [of x] sgs f,
            where neg = neg] ev by simp
      moreover have "int_of_str [c] = m" using dv dcs True by simp
      moreover have "decpt - 1 = e" using n by (simp add: decpt_def)
      ultimately show ?thesis using float_of_decimal_id [OF ok] by (simp add: body)
    next
      case False
      then have n: "1 < n" using ncs by (cases cs) simp_all
      have body: "float_body m e = [c] @ CHR ''.'' # cs @ CHR ''e'' # sg # exp_digits x"
        using A False unfolding fb
        by (simp add: float_layout_def dcs sg_def x_def)
      have "parse_unsigned neg (([c] @ CHR ''.'' # cs @ CHR ''e'' # sg # exp_digits x) @ r) =
          Some (PFloat (float_of_decimal neg (int_of_str ([c] @ cs))
            (decpt - 1 - int (length cs))), r)"
        using unsigned_frac_exp [OF vi False dcs' exp_digits_facts(1) [of x]
            exp_digits_facts(2) [of x] sgs f, where neg = neg] ev
        by simp
      moreover have "int_of_str ([c] @ cs) = m" using dv dcs by simp
      moreover have "decpt - 1 - int (length cs) = e" using ncs by (simp add: decpt_def)
      ultimately show ?thesis using float_of_decimal_id [OF ok] by (simp add: body)
    qed
  next
    case B
    have m0: "m \<noteq> 0"
    proof
      assume "m = 0"
      from zero [OF this] B show False by simp
    qed
    define k where "k = nat (- decpt)"
    have body: "float_body m e = ''0'' @ CHR ''.'' # (replicate k CHR ''0'' @ ds)"
      using B unfolding fb by (simp add: float_layout_def k_def)
    have vi: "valid_int ''0''" by (simp add: valid_int_def)
    have fd: "list_all is_digit (replicate k CHR ''0'' @ ds)"
      using dd by (simp add: zeros_digits)
    have fne: "replicate k CHR ''0'' @ ds \<noteq> []" using dne by simp
    have "parse_unsigned neg ((''0'' @ CHR ''.'' # (replicate k CHR ''0'' @ ds)) @ r) =
        Some (PFloat (float_of_decimal neg (int_of_str (''0'' @ replicate k CHR ''0'' @ ds))
          (- int (length (replicate k CHR ''0'' @ ds)))), r)"
      using unsigned_frac [OF vi fne fd f, where neg = neg] by simp
    moreover have "int_of_str (''0'' @ replicate k CHR ''0'' @ ds) = m"
    proof -
      have "''0'' @ replicate k CHR ''0'' @ ds = replicate (Suc k) CHR ''0'' @ ds" by simp
      then have "int_of_str (''0'' @ replicate k CHR ''0'' @ ds) =
          int_of_str (replicate (Suc k) CHR ''0'') * 10 ^ length ds + int_of_str ds"
        by (simp only: int_of_str_append)
      then show ?thesis using dv int_of_str_zeros [of "Suc k"] by simp
    qed
    moreover have "- int (length (replicate k CHR ''0'' @ ds)) = e"
      using B by (simp add: k_def decpt_def n_def)
    ultimately show ?thesis using float_of_decimal_id [OF ok] by (simp add: body)
  next
    case C
    define k where "k = nat (decpt - n)"
    have ke: "int k = e" using C by (simp add: k_def decpt_def)
    have body: "float_body m e = (ds @ replicate k CHR ''0'') @ CHR ''.'' # ''0''"
      using C unfolding fb by (simp add: float_layout_def k_def n_def)
    have vi: "valid_int (ds @ replicate k CHR ''0'')"
    proof (cases "m = 0")
      case True
      with zero ke have "ds = ''0''" "k = 0" by simp_all
      then show ?thesis by (simp add: valid_int_def)
    next
      case False
      then show ?thesis using hd0 dne dd
        by (simp add: valid_int_def zeros_digits)
    qed
    have "parse_unsigned neg (((ds @ replicate k CHR ''0'') @ CHR ''.'' # ''0'') @ r) =
        Some (PFloat (float_of_decimal neg (int_of_str ((ds @ replicate k CHR ''0'') @ ''0''))
          (- int (length ''0''))), r)"
      using unsigned_frac [OF vi _ _ f, where fp = "''0''" and neg = neg]
      by (simp add: not_digit_chars)
    moreover have "int_of_str ((ds @ replicate k CHR ''0'') @ ''0'') = m * 10 ^ Suc k"
    proof -
      have "(ds @ replicate k CHR ''0'') @ ''0'' = ds @ replicate (Suc k) CHR ''0''"
        by (simp add: replicate_append_same)
      then have "int_of_str ((ds @ replicate k CHR ''0'') @ ''0'') =
          int_of_str ds * 10 ^ length (replicate (Suc k) CHR ''0'') +
          int_of_str (replicate (Suc k) CHR ''0'')"
        by (simp only: int_of_str_append)
      then show ?thesis using dv int_of_str_zeros [of "Suc k"] by simp
    qed
    moreover have "float_of_decimal neg (m * 10 ^ Suc k) (- 1) = Finite neg m e"
      using float_of_decimal_pow [OF ok, of "Suc k"] ke by simp
    ultimately show ?thesis by (simp add: body)
  next
    case D
    have m0: "m \<noteq> 0"
    proof
      assume "m = 0"
      from zero [OF this] D show False by simp
    qed
    define d where "d = nat decpt"
    have d0: "0 < d" and dn: "d < length ds" using D by (simp_all add: d_def n_def)
    have body: "float_body m e = take d ds @ CHR ''.'' # drop d ds"
      using D unfolding fb by (simp add: float_layout_def d_def n_def)
    have "hd (take d ds) = hd ds" using d0 dne by (cases ds; cases d) simp_all
    then have vi: "valid_int (take d ds)"
      using hd0 [OF m0] d0 dne dd
      by (auto simp: valid_int_def list_all_iff dest: in_set_takeD)
    have fne: "drop d ds \<noteq> []" using dn by simp
    have fd: "list_all is_digit (drop d ds)" using dd by (auto simp: list_all_iff dest: in_set_dropD)
    have "parse_unsigned neg ((take d ds @ CHR ''.'' # drop d ds) @ r) =
        Some (PFloat (float_of_decimal neg (int_of_str (take d ds @ drop d ds))
          (- int (length (drop d ds)))), r)"
      using unsigned_frac [OF vi fne fd f, where neg = neg] by simp
    moreover have "int_of_str (take d ds @ drop d ds) = m" using dv by simp
    moreover have "- int (length (drop d ds)) = e"
      using D dn by (simp add: d_def decpt_def n_def)
    ultimately show ?thesis using float_of_decimal_id [OF ok] by (simp add: body)
  qed
qed

lemma float_body_hd: "float_body m e \<noteq> [] \<and> is_digit (hd (float_body m e))"
proof -
  have d: "str_nat m \<noteq> [] \<and> is_digit (hd (str_nat m))"
    using valid_int_hd [OF valid_int_str_nat] .
  then obtain c cs where s: "str_nat m = c # cs" by (cases "str_nat m") auto
  with d have c: "is_digit c" by simp
  define decpt where "decpt = int (length (str_nat m)) + e"
  have fb: "float_body m e = float_layout (c # cs) decpt"
    by (simp add: float_body_def decpt_def s)
  have len: "int (length (str_nat m)) = int (length (c # cs))" by (simp add: s)
  consider (A) "decpt \<le> - 4 \<or> 16 < decpt"
    | (B) "\<not> (decpt \<le> - 4 \<or> 16 < decpt)" "decpt \<le> 0"
    | (C) "\<not> (decpt \<le> - 4 \<or> 16 < decpt)" "\<not> decpt \<le> 0"
        "int (length (str_nat m)) \<le> decpt"
    | (D) "\<not> (decpt \<le> - 4 \<or> 16 < decpt)" "\<not> decpt \<le> 0"
        "\<not> int (length (str_nat m)) \<le> decpt"
    by blast
  then show ?thesis
  proof cases
    case A
    then have "float_body m e = c # tl (float_body m e)"
      unfolding fb len by (simp add: float_layout_def)
    then have "float_body m e \<noteq> [] \<and> hd (float_body m e) = c"
      by (metis list.distinct(1) list.sel(1))
    with c show ?thesis by simp
  next
    case B
    then have "float_body m e = CHR ''0'' # tl (float_body m e)"
      unfolding fb len by (simp add: float_layout_def)
    then have "float_body m e \<noteq> [] \<and> hd (float_body m e) = CHR ''0''"
      by (metis list.distinct(1) list.sel(1))
    then show ?thesis by (simp add: not_digit_chars)
  next
    case C
    then have "float_body m e = c # tl (float_body m e)"
      unfolding fb len by (simp add: float_layout_def)
    then have "float_body m e \<noteq> [] \<and> hd (float_body m e) = c"
      by (metis list.distinct(1) list.sel(1))
    with c show ?thesis by simp
  next
    case D
    then obtain k where k: "nat decpt = Suc k" by (cases "nat decpt") auto
    from D have "float_body m e = c # tl (float_body m e)"
      unfolding fb len by (simp add: float_layout_def k)
    then have "float_body m e \<noteq> [] \<and> hd (float_body m e) = c"
      by (metis list.distinct(1) list.sel(1))
    with c show ?thesis by simp
  qed
qed

lemma parse_number_float:
  assumes "float_ok f" "follow r"
  shows "parse_number (float_repr f @ r) = Some (PFloat f, r)"
proof (cases f)
  case (Finite neg m e)
  show ?thesis
  proof (cases neg)
    case True
    then show ?thesis using body_parse [of neg m e r] assms Finite by simp
  next
    case False
    have "parse_number (float_body m e @ r) = parse_unsigned False (float_body m e @ r)"
      using float_body_hd [of m e] by (simp add: parse_number_unsigned)
    then show ?thesis using body_parse [of neg m e r] assms Finite False by simp
  qed
qed

subsection \<open>Strings\<close>

lemma hex_val_hex_char: "d < 16 \<Longrightarrow> hex_val (hex_char d) = Some d"
  by (auto simp: hex_val_def hex_char_def Let_def)

lemma hex_val_0: "hex_val CHR ''0'' = Some 0"
  by (simp add: hex_val_def)

lemma decode_escape:
  "decode_uXXXX CHR ''0'' CHR ''0'' (hex_char ((of_char c :: nat) div 16))
     (hex_char ((of_char c :: nat) mod 16)) = Some c"
proof -
  have lt: "(of_char c :: nat) < 256" by simp
  then have d: "(of_char c :: nat) div 16 < 16" by (simp add: less_mult_imp_div_less)
  have m: "(of_char c :: nat) mod 16 < 16" by simp
  have "((0 * 16 + 0) * 16 + (of_char c :: nat) div 16) * 16 + (of_char c :: nat) mod 16
      = of_char c" by simp
  then show ?thesis
    using lt by (simp add: decode_uXXXX_def hex_val_0 hex_val_hex_char [OF d]
        hex_val_hex_char [OF m] Let_def)
qed

lemma scan_escape:
  "scanstring (escape_char c @ s) =
     (case scanstring s of None \<Rightarrow> None | Some (r, rest) \<Rightarrow> Some (c # r, rest))"
proof -
  consider (q) "c = CHR 0x22" | (b) "c = CHR 0x5C" | (n) "c = CHR 0x0A" | (r) "c = CHR 0x0D"
    | (t) "c = CHR 0x09" | (bs) "c = CHR 0x08" | (f) "c = CHR 0x0C"
    | (p) "c \<noteq> CHR 0x22" "c \<noteq> CHR 0x5C" "c \<noteq> CHR 0x0A" "c \<noteq> CHR 0x0D" "c \<noteq> CHR 0x09"
          "c \<noteq> CHR 0x08" "c \<noteq> CHR 0x0C" "32 \<le> (of_char c :: nat) \<and> (of_char c :: nat) \<le> 126"
    | (u) "c \<noteq> CHR 0x22" "c \<noteq> CHR 0x5C" "c \<noteq> CHR 0x0A" "c \<noteq> CHR 0x0D" "c \<noteq> CHR 0x09"
          "c \<noteq> CHR 0x08" "c \<noteq> CHR 0x0C"
          "\<not> (32 \<le> (of_char c :: nat) \<and> (of_char c :: nat) \<le> 126)"
    by blast
  then show ?thesis
  proof cases
    case q
    show ?thesis unfolding q by (simp add: escape_char_def unescape_def)
  next
    case b
    show ?thesis unfolding b by (simp add: escape_char_def unescape_def)
  next
    case n
    show ?thesis unfolding n by (simp add: escape_char_def unescape_def)
  next
    case r
    show ?thesis unfolding r by (simp add: escape_char_def unescape_def)
  next
    case t
    show ?thesis unfolding t by (simp add: escape_char_def unescape_def)
  next
    case bs
    show ?thesis unfolding bs by (simp add: escape_char_def unescape_def)
  next
    case f
    show ?thesis unfolding f by (simp add: escape_char_def unescape_def)
  next
    case p
    then have "\<not> (of_char c :: nat) < 32" by simp
    with p show ?thesis by (simp add: escape_char_def)
  next
    case u
    then show ?thesis by (simp add: escape_char_def decode_escape)
  qed
qed

lemma scanstring_encode:
  "scanstring (concat (map escape_char s) @ CHR 0x22 # rest) = Some (s, rest)"
  by (induction s) (simp_all add: scan_escape)

lemma encode_string_hd: "encode_string s = CHR 0x22 # tl (encode_string s)"
  by (simp add: encode_string_def)

subsection \<open>White space and first characters\<close>

lemma skip_ws_nl: "skip_ws (nl k @ x) = skip_ws x"
proof -
  have "dropWhile is_ws (nl k @ x) = dropWhile is_ws x"
    by (rule dropWhile_append2) (auto simp: nl_def is_ws_def)
  then show ?thesis by (simp add: skip_ws_def)
qed

lemma skip_ws_Cons: "\<not> is_ws c \<Longrightarrow> skip_ws (c # x) = c # x"
  by (simp add: skip_ws_def)

lemma skip_ws_space: "skip_ws (CHR '' '' # x) = skip_ws x"
  by (simp add: skip_ws_def is_ws_def)

lemma skip_ws_Nil: "skip_ws [] = []"
  by (simp add: skip_ws_def)

lemma follow_nl: "follow (nl k @ x)"
  by (simp add: follow_def nl_def)

lemma follow_comma: "follow (CHR '','' # x)"
  by (simp add: follow_def)

lemma digit_starter: "is_digit c \<Longrightarrow> starter c"
  by (auto simp: starter_def is_digit_def is_ws_def)

lemma str_int_hd:
  "\<exists>c cs. str_int i = c # cs \<and> (c = CHR ''-'' \<or> is_digit c)"
proof (cases "i < 0")
  case True
  then show ?thesis by (simp add: str_int_def)
next
  case False
  have "str_nat (nat i) \<noteq> [] \<and> is_digit (hd (str_nat (nat i)))"
    using valid_int_hd [OF valid_int_str_nat] .
  then show ?thesis using False by (cases "str_nat (nat i)") (auto simp: str_int_def)
qed

lemma float_repr_hd:
  "\<exists>c cs. float_repr f = c # cs \<and> (c = CHR ''-'' \<or> is_digit c)"
proof (cases f)
  case (Finite neg m e)
  have "float_body m e \<noteq> [] \<and> is_digit (hd (float_body m e))" by (rule float_body_hd)
  then show ?thesis using Finite by (cases "float_body m e") auto
qed

lemma number_token:
  assumes "c = CHR ''-'' \<or> is_digit c"
  shows "parse_value (Suc n) (c # cs) = parse_number (c # cs)"
proof -
  from assms have "c \<noteq> CHR 0x22 \<and> c \<noteq> CHR ''{'' \<and> c \<noteq> CHR ''['' \<and> c \<noteq> CHR ''n''
      \<and> c \<noteq> CHR ''t'' \<and> c \<noteq> CHR ''f''"
    by (auto simp: is_digit_def)
  then show ?thesis by simp
qed

lemma number_starter: "c = CHR ''-'' \<or> is_digit c \<Longrightarrow> starter c"
  by (auto simp: starter_def is_digit_def is_ws_def)

lemma dumps_at_hd: "\<exists>c cs. dumps_at lv v = c # cs \<and> starter c"
proof (cases v)
  case PNone
  then show ?thesis by (simp add: starter_def is_ws_def)
next
  case (PBool b)
  then show ?thesis by (simp add: starter_def is_ws_def)
next
  case (PInt i)
  then show ?thesis using str_int_hd [of i] number_starter by auto
next
  case (PFloat f)
  then show ?thesis using float_repr_hd [of f] number_starter by auto
next
  case (PStr s)
  then show ?thesis by (simp add: encode_string_def starter_def is_ws_def)
next
  case (PList vs)
  then show ?thesis by (simp add: starter_def is_ws_def)
next
  case (PDict kvs)
  then show ?thesis by (simp add: starter_def is_ws_def)
qed

lemma dumps_items_hd: "vs \<noteq> [] \<Longrightarrow> \<exists>c cs. dumps_items lv vs = c # cs \<and> starter c"
proof (cases vs)
  case Nil
  assume "vs \<noteq> []"
  with Nil show ?thesis by simp
next
  case (Cons v vs')
  obtain c cs where "dumps_at lv v = c # cs \<and> starter c" using dumps_at_hd by blast
  then show ?thesis using Cons by simp
qed

lemma dumps_members_hd:
  "kvs \<noteq> [] \<Longrightarrow> \<exists>cs. dumps_members lv kvs = CHR 0x22 # cs"
proof (cases kvs)
  case Nil
  assume "kvs \<noteq> []"
  with Nil show ?thesis by simp
next
  case (Cons kv kvs')
  then show ?thesis by (cases kv) (simp add: encode_string_def)
qed

lemma update_fresh: "k \<notin> fst ` set d \<Longrightarrow> AList.update k v d = d @ [(k, v)]"
  by (induction d) auto

lemma foldl_update_distinct:
  "distinct (map fst (d @ kvs)) \<Longrightarrow>
     foldl (\<lambda>d (k, v). AList.update k v d) d kvs = d @ kvs"
proof (induction kvs arbitrary: d)
  case Nil
  then show ?case by simp
next
  case (Cons kv kvs)
  obtain k v where kv: "kv = (k, v)" by (cases kv)
  from Cons.prems kv have fresh: "k \<notin> fst ` set d" by auto
  from Cons.prems kv have "distinct (map fst ((d @ [(k, v)]) @ kvs))" by simp
  from Cons.IH [OF this] show ?case by (simp add: kv update_fresh [OF fresh])
qed

lemma dict_of_pairs_distinct: "distinct (map fst kvs) \<Longrightarrow> dict_of_pairs kvs = kvs"
  using foldl_update_distinct [of "[]" kvs] by (simp add: dict_of_pairs_def)

subsection \<open>Values, arrays and objects\<close>

lemma skip_ws_starter: "starter c \<Longrightarrow> skip_ws (c # x) = c # x"
  by (simp add: skip_ws_Cons starter_def)

lemma pv_list:
  assumes "starter c"
  shows "parse_value (Suc n) (CHR ''['' # nl k @ c # x) = parse_items n [] (c # x)"
proof -
  have "skip_ws (nl k @ c # x) = c # x"
    by (simp add: skip_ws_nl skip_ws_starter [OF assms])
  moreover have "c \<noteq> CHR '']''" using assms by (simp add: starter_def)
  ultimately show ?thesis by simp
qed

lemma pv_dict:
  "parse_value (Suc n) (CHR ''{'' # nl k @ CHR 0x22 # x) = parse_members n [] (CHR 0x22 # x)"
proof -
  have "skip_ws (nl k @ CHR 0x22 # x) = CHR 0x22 # x"
    by (simp add: skip_ws_nl skip_ws_Cons is_ws_def)
  then show ?thesis by simp
qed

lemma pi_last:
  assumes "parse_value n s = Some (v, nl k @ CHR '']'' # rest)"
  shows "parse_items (Suc n) acc s = Some (PList (acc @ [v]), rest)"
proof -
  have "skip_ws (nl k @ CHR '']'' # rest) = CHR '']'' # rest"
    by (simp add: skip_ws_nl skip_ws_Cons is_ws_def)
  then show ?thesis using assms by simp
qed

lemma pi_more:
  assumes "parse_value n s = Some (v, CHR '','' # nl k @ x)"
  shows "parse_items (Suc n) acc s = parse_items n (acc @ [v]) (skip_ws x)"
proof -
  have "skip_ws (CHR '','' # nl k @ x) = CHR '','' # nl k @ x"
    by (simp add: skip_ws_Cons is_ws_def)
  then show ?thesis using assms by (simp add: skip_ws_nl)
qed

lemma pm_head:
  "parse_members (Suc n) acc (encode_string key @ '': '' @ x) =
     (case parse_value n (skip_ws x) of
        None \<Rightarrow> None
      | Some (v, r3) \<Rightarrow>
          (case skip_ws r3 of
             [] \<Rightarrow> None
           | d # ds \<Rightarrow>
               if d = CHR ''}'' then Some (PDict (dict_of_pairs (acc @ [(key, v)])), ds)
               else if d = CHR '','' then parse_members n (acc @ [(key, v)]) (skip_ws ds)
               else None))"
proof -
  have "skip_ws (CHR '':'' # CHR '' '' # x) = CHR '':'' # CHR '' '' # x"
    by (simp add: skip_ws_Cons is_ws_def)
  then show ?thesis
    by (simp add: encode_string_def scanstring_encode skip_ws_space)
qed

lemma pm_last:
  assumes "skip_ws x = x" and "parse_value n x = Some (v, nl j @ CHR ''}'' # rest)"
  shows "parse_members (Suc n) acc (encode_string key @ '': '' @ x) =
           Some (PDict (dict_of_pairs (acc @ [(key, v)])), rest)"
proof -
  have "skip_ws (nl j @ CHR ''}'' # rest) = CHR ''}'' # rest"
    by (simp add: skip_ws_nl skip_ws_Cons is_ws_def)
  then show ?thesis using assms by (simp only: pm_head) simp
qed

lemma pm_more:
  assumes "skip_ws x = x" and "parse_value n x = Some (v, CHR '','' # nl j @ y)"
  shows "parse_members (Suc n) acc (encode_string key @ '': '' @ x) =
           parse_members n (acc @ [(key, v)]) (skip_ws y)"
proof -
  have "skip_ws (CHR '','' # nl j @ y) = CHR '','' # nl j @ y"
    by (simp add: skip_ws_Cons is_ws_def)
  then show ?thesis using assms by (simp only: pm_head) (simp add: skip_ws_nl)
qed

lemma skip_ws_dumps_at: "skip_ws (dumps_at lv v @ x) = dumps_at lv v @ x"
proof -
  obtain c cs where "dumps_at lv v = c # cs \<and> starter c" using dumps_at_hd by blast
  then show ?thesis by (simp add: skip_ws_starter)
qed

lemma skip_ws_dumps_items:
  "vs \<noteq> [] \<Longrightarrow> skip_ws (dumps_items lv vs @ x) = dumps_items lv vs @ x"
proof -
  assume "vs \<noteq> []"
  then obtain c cs where "dumps_items lv vs = c # cs \<and> starter c"
    using dumps_items_hd by blast
  then show ?thesis by (simp add: skip_ws_starter)
qed

lemma skip_ws_dumps_members:
  "kvs \<noteq> [] \<Longrightarrow> skip_ws (dumps_members lv kvs @ x) = dumps_members lv kvs @ x"
proof -
  assume "kvs \<noteq> []"
  then obtain cs where "dumps_members lv kvs = CHR 0x22 # cs"
    using dumps_members_hd by blast
  then show ?thesis by (simp add: skip_ws_Cons is_ws_def)
qed

lemma fuel_pos: "0 < fuel v"
  by (cases v) simp_all

lemma parse_dumps:
  "\<forall>n rest. py_wf v \<longrightarrow> fuel v \<le> n \<longrightarrow> follow rest \<longrightarrow>
      parse_value n (dumps_at lv v @ rest) = Some (v, rest)"
  "\<forall>n acc k rest. vs \<noteq> [] \<longrightarrow> py_wf_items vs \<longrightarrow> fuel_items vs \<le> n \<longrightarrow>
      parse_items n acc (dumps_items lv vs @ nl k @ CHR '']'' # rest) =
        Some (PList (acc @ vs), rest)"
  "\<forall>n acc k rest. kvs \<noteq> [] \<longrightarrow> py_wf_members kvs \<longrightarrow> fuel_members kvs \<le> n \<longrightarrow>
      parse_members n acc (dumps_members lv kvs @ nl k @ CHR ''}'' # rest) =
        Some (PDict (dict_of_pairs (acc @ kvs)), rest)"
proof (induction lv v and lv vs and lv kvs rule: dumps_at_dumps_items_dumps_members.induct)
  case (1 lv)
  show ?case
  proof (intro allI impI)
    fix n rest
    assume "fuel PNone \<le> n"
    then obtain m where "n = Suc m" by (cases n) auto
    then show "parse_value n (dumps_at lv PNone @ rest) = Some (PNone, rest)" by simp
  qed
next
  case (2 lv b)
  show ?case
  proof (intro allI impI)
    fix n rest
    assume "fuel (PBool b) \<le> n"
    then obtain m where "n = Suc m" by (cases n) auto
    then show "parse_value n (dumps_at lv (PBool b) @ rest) = Some (PBool b, rest)"
      by (cases b) simp_all
  qed
next
  case (3 lv i)
  show ?case
  proof (intro allI impI)
    fix n rest
    assume f: "follow rest" and "fuel (PInt i) \<le> n"
    then obtain m where n: "n = Suc m" by (cases n) auto
    obtain c cs where s: "str_int i = c # cs" and c: "c = CHR ''-'' \<or> is_digit c"
      using str_int_hd by blast
    have "parse_value n (dumps_at lv (PInt i) @ rest) = parse_value (Suc m) (c # (cs @ rest))"
      by (simp only: n dumps_at.simps s append_Cons)
    also have "\<dots> = parse_number (c # (cs @ rest))" by (rule number_token [OF c])
    also have "\<dots> = parse_number (str_int i @ rest)" by (simp only: s append_Cons)
    also have "\<dots> = Some (PInt i, rest)" by (rule parse_number_int [OF f])
    finally show "parse_value n (dumps_at lv (PInt i) @ rest) = Some (PInt i, rest)" .
  qed
next
  case (4 lv fl)
  show ?case
  proof (intro allI impI)
    fix n rest
    assume f: "follow rest" and "fuel (PFloat fl) \<le> n" and wf: "py_wf (PFloat fl)"
    then obtain m where n: "n = Suc m" by (cases n) auto
    from wf have ok: "float_ok fl" by simp
    obtain c cs where s: "float_repr fl = c # cs" and c: "c = CHR ''-'' \<or> is_digit c"
      using float_repr_hd by blast
    have "parse_value n (dumps_at lv (PFloat fl) @ rest) = parse_value (Suc m) (c # (cs @ rest))"
      by (simp only: n dumps_at.simps s append_Cons)
    also have "\<dots> = parse_number (c # (cs @ rest))" by (rule number_token [OF c])
    also have "\<dots> = parse_number (float_repr fl @ rest)" by (simp only: s append_Cons)
    also have "\<dots> = Some (PFloat fl, rest)" by (rule parse_number_float [OF ok f])
    finally show "parse_value n (dumps_at lv (PFloat fl) @ rest) = Some (PFloat fl, rest)" .
  qed
next
  case (5 lv s)
  show ?case
  proof (intro allI impI)
    fix n rest
    assume "fuel (PStr s) \<le> n"
    then obtain m where "n = Suc m" by (cases n) auto
    then show "parse_value n (dumps_at lv (PStr s) @ rest) = Some (PStr s, rest)"
      by (simp add: encode_string_def scanstring_encode)
  qed
next
  case (6 lv vs)
  show ?case
  proof (intro allI impI)
    fix n rest
    assume wf: "py_wf (PList vs)" and fu: "fuel (PList vs) \<le> n"
    then obtain m where n: "n = Suc m" and m: "fuel_items vs \<le> m" by (cases n) auto
    show "parse_value n (dumps_at lv (PList vs) @ rest) = Some (PList vs, rest)"
    proof (cases "vs = []")
      case True
      have "skip_ws (CHR '']'' # rest) = CHR '']'' # rest"
        by (simp add: skip_ws_Cons is_ws_def)
      then show ?thesis using True n by simp
    next
      case False
      obtain c cs where s: "dumps_items (Suc lv) vs = c # cs" and c: "starter c"
        using dumps_items_hd [OF False] by blast
      from wf have wfi: "py_wf_items vs" by simp
      have "dumps_at lv (PList vs) @ rest =
          CHR ''['' # nl (Suc lv) @ c # (cs @ nl lv @ CHR '']'' # rest)"
        using False by (simp add: s)
      then have "parse_value n (dumps_at lv (PList vs) @ rest) =
          parse_items m [] (c # (cs @ nl lv @ CHR '']'' # rest))"
        by (simp only: n pv_list [OF c])
      also have "\<dots> = parse_items m [] (dumps_items (Suc lv) vs @ nl lv @ CHR '']'' # rest)"
        by (simp only: s append_Cons)
      also have "\<dots> = Some (PList ([] @ vs), rest)"
        using 6 [OF False] False wfi m by blast
      finally show ?thesis by simp
    qed
  qed
next
  case (7 lv kvs)
  show ?case
  proof (intro allI impI)
    fix n rest
    assume wf: "py_wf (PDict kvs)" and fu: "fuel (PDict kvs) \<le> n"
    then obtain m where n: "n = Suc m" and m: "fuel_members kvs \<le> m" by (cases n) auto
    from wf have d: "distinct (map fst kvs)" and wfm: "py_wf_members kvs" by simp_all
    show "parse_value n (dumps_at lv (PDict kvs) @ rest) = Some (PDict kvs, rest)"
    proof (cases "kvs = []")
      case True
      have "skip_ws (CHR ''}'' # rest) = CHR ''}'' # rest"
        by (simp add: skip_ws_Cons is_ws_def)
      then show ?thesis using True n by simp
    next
      case False
      obtain cs where s: "dumps_members (Suc lv) kvs = CHR 0x22 # cs"
        using dumps_members_hd [OF False] by blast
      have "dumps_at lv (PDict kvs) @ rest =
          CHR ''{'' # nl (Suc lv) @ CHR 0x22 # (cs @ nl lv @ CHR ''}'' # rest)"
        using False by (simp add: s)
      then have "parse_value n (dumps_at lv (PDict kvs) @ rest) =
          parse_members m [] (CHR 0x22 # (cs @ nl lv @ CHR ''}'' # rest))"
        by (simp only: n pv_dict)
      also have "\<dots> = parse_members m [] (dumps_members (Suc lv) kvs @ nl lv @ CHR ''}'' # rest)"
        by (simp only: s append_Cons)
      also have "\<dots> = Some (PDict (dict_of_pairs ([] @ kvs)), rest)"
        using 7 [OF False] False wfm m by blast
      finally show ?thesis by (simp add: dict_of_pairs_distinct [OF d])
    qed
  qed
next
  case (8 lv)
  show ?case by simp
next
  case (9 lv v vs)
  show ?case
  proof (intro allI impI)
    fix n acc k rest
    assume wf: "py_wf_items (v # vs)" and fu: "fuel_items (v # vs) \<le> n"
    then obtain m where n: "n = Suc m" and mv: "fuel v \<le> m" and mvs: "fuel_items vs \<le> m"
      by (cases n) auto
    from wf have wv: "py_wf v" and wvs: "py_wf_items vs" by simp_all
    show "parse_items n acc (dumps_items lv (v # vs) @ nl k @ CHR '']'' # rest) =
        Some (PList (acc @ v # vs), rest)"
    proof (cases "vs = []")
      case True
      have "parse_value m (dumps_at lv v @ nl k @ CHR '']'' # rest) =
          Some (v, nl k @ CHR '']'' # rest)"
        using 9(1) wv mv follow_nl by blast
      from pi_last [OF this] show ?thesis using True n by simp
    next
      case False
      let ?x = "dumps_items lv vs @ nl k @ CHR '']'' # rest"
      have "parse_value m (dumps_at lv v @ CHR '','' # nl lv @ ?x) =
          Some (v, CHR '','' # nl lv @ ?x)"
        using 9(1) wv mv follow_comma by blast
      from pi_more [OF this]
      have "parse_items (Suc m) acc (dumps_at lv v @ CHR '','' # nl lv @ ?x) =
          parse_items m (acc @ [v]) ?x"
        by (simp only: skip_ws_dumps_items [OF False])
      also have "\<dots> = Some (PList ((acc @ [v]) @ vs), rest)"
        using 9(2) [OF False] False wvs mvs by blast
      finally show ?thesis using False n by simp
    qed
  qed
next
  case (10 lv)
  show ?case by simp
next
  case (11 lv key v kvs)
  show ?case
  proof (intro allI impI)
    fix n acc k rest
    assume wf: "py_wf_members ((key, v) # kvs)" and fu: "fuel_members ((key, v) # kvs) \<le> n"
    then obtain m where n: "n = Suc m" and mv: "fuel v \<le> m" and mvs: "fuel_members kvs \<le> m"
      by (cases n) auto
    from wf have wv: "py_wf v" and wvs: "py_wf_members kvs" by simp_all
    show "parse_members n acc (dumps_members lv ((key, v) # kvs) @ nl k @ CHR ''}'' # rest) =
        Some (PDict (dict_of_pairs (acc @ (key, v) # kvs)), rest)"
    proof (cases "kvs = []")
      case True
      let ?x = "dumps_at lv v @ nl k @ CHR ''}'' # rest"
      have "parse_value m ?x = Some (v, nl k @ CHR ''}'' # rest)"
        using 11(1) wv mv follow_nl by blast
      from pm_last [OF skip_ws_dumps_at this] show ?thesis using True n by simp
    next
      case False
      let ?y = "dumps_members lv kvs @ nl k @ CHR ''}'' # rest"
      let ?x = "dumps_at lv v @ CHR '','' # nl lv @ ?y"
      have "parse_value m ?x = Some (v, CHR '','' # nl lv @ ?y)"
        using 11(1) wv mv follow_comma by blast
      from pm_more [OF skip_ws_dumps_at this]
      have "parse_members (Suc m) acc (encode_string key @ '': '' @ ?x) =
          parse_members m (acc @ [(key, v)]) ?y"
        by (simp only: skip_ws_dumps_members [OF False])
      also have "\<dots> = Some (PDict (dict_of_pairs ((acc @ [(key, v)]) @ kvs)), rest)"
        using 11(2) [OF False] False wvs mvs by blast
      finally show ?thesis using False n by simp
    qed
  qed
qed

lemma length_nl: "0 < length (nl k)"
  by (simp add: nl_def)

lemma fuel_length:
  "fuel v \<le> length (dumps_at lv v)"
  "fuel_items vs \<le> Suc (length (dumps_items lv vs))"
  "fuel_members kvs \<le> Suc (length (dumps_members lv kvs))"
proof (induction lv v and lv vs and lv kvs rule: dumps_at_dumps_items_dumps_members.induct)
  case (1 lv)
  show ?case by simp
next
  case (2 lv b)
  show ?case by simp
next
  case (3 lv i)
  obtain c cs where "str_int i = c # cs" using str_int_hd by blast
  then show ?case by simp
next
  case (4 lv f)
  obtain c cs where "float_repr f = c # cs" using float_repr_hd by blast
  then show ?case by simp
next
  case (5 lv s)
  show ?case by (simp add: encode_string_def)
next
  case (6 lv vs)
  show ?case
  proof (cases "vs = []")
    case True
    then show ?thesis by simp
  next
    case False
    from 6 [OF False] length_nl [of lv] length_nl [of "Suc lv"] False
    show ?thesis by simp
  qed
next
  case (7 lv kvs)
  show ?case
  proof (cases "kvs = []")
    case True
    then show ?thesis by simp
  next
    case False
    from 7 [OF False] length_nl [of lv] length_nl [of "Suc lv"] False
    show ?thesis by simp
  qed
next
  case (8 lv)
  show ?case by simp
next
  case (9 lv v vs)
  show ?case
  proof (cases "vs = []")
    case True
    then show ?thesis using 9(1) by simp
  next
    case False
    from 9(1) 9(2) [OF False] length_nl [of lv] False show ?thesis by simp
  qed
next
  case (10 lv)
  show ?case by simp
next
  case (11 lv key v kvs)
  show ?case
  proof (cases "kvs = []")
    case True
    then show ?thesis using 11(1) by simp
  next
    case False
    from 11(1) 11(2) [OF False] length_nl [of lv] False show ?thesis by simp
  qed
qed

lemma json_roundtrip:
  assumes "py_wf v"
  shows "json_loads (json_dumps v) = Inr v"
proof -
  have s: "skip_ws (dumps_at 0 v) = dumps_at 0 v"
    using skip_ws_dumps_at [of 0 v "[]"] by simp
  have "fuel v \<le> Suc (length (dumps_at 0 v))"
    using fuel_length(1) [of v 0] by simp
  moreover have "follow []" by (simp add: follow_def)
  ultimately have "parse_value (Suc (length (dumps_at 0 v))) (dumps_at 0 v @ []) = Some (v, [])"
    using parse_dumps(1) assms by blast
  then show ?thesis
    by (simp add: json_loads_def json_dumps_def s skip_ws_Nil)
qed

section \<open>Saving and loading\<close>

lemma baseline_valid_py_of_state: "baseline_valid (py_of_state B)"
  by (auto simp: py_of_state_def py_of_info_def required_keys_def list_all_iff)

lemma py_wf_members_state:
  "\<forall>(p, fi) \<in> set B. float_ok (info_modified fi) \<and> float_ok (info_created fi) \<Longrightarrow>
   py_wf_members (map (\<lambda>(p, fi). (p, py_of_info fi)) B)"
  by (induction B) (auto simp: py_of_info_def)

lemma py_wf_py_of_state:
  assumes "distinct (map fst B)"
    and "\<forall>(p, fi) \<in> set B. float_ok (info_modified fi) \<and> float_ok (info_created fi)"
  shows "py_wf (py_of_state B)"
proof -
  have "map fst (map (\<lambda>(p, fi). (p, py_of_info fi)) B) = map fst B"
    by (induction B) auto
  then have "distinct (map fst (map (\<lambda>(p, fi). (p, py_of_info fi)) B))"
    using assms(1) by (simp only:)
  then show ?thesis
    using py_wf_members_state [OF assms(2)] by (simp only: py_of_state_def py_wf.simps)
qed

lemma py_len_py_of_state: "py_len (py_of_state B) = Inr (length B)"
  by (simp add: py_of_state_def)

text \<open>
  C3, amended. Let \<^verbatim>\<open>scan_directory\<close> return a non-empty mapping \<open>B\<close>, its timestamps
  the decimals of floats, and let the baseline file be writable and readable. Then
  \<^verbatim>\<open>create_baseline\<close> returns \<^verbatim>\<open>True\<close> with \<open>B\<close> as the baseline and the text of
  \<^verbatim>\<open>json.dump\<close> in the baseline file, and \<^verbatim>\<open>load_baseline\<close> on that file, by any monitor
  with the same baseline path, returns \<^verbatim>\<open>True\<close> with a baseline equal to \<open>B\<close>, the same
  keys in the same order with the same field values, and logs no error. That
  \<^verbatim>\<open>json.load\<close> reads back what \<^verbatim>\<open>json.dump\<close> wrote is \<open>json_roundtrip\<close>, proved of
  the encoder and the decoder.
\<close>

theorem create_load_roundtrip:
  assumes "scan_directory (stdlib digest) m w directory = Inr B"
    and "B \<noteq> []"
    and "\<forall>(p, fi) \<in> set B. float_ok (info_modified fi) \<and> float_ok (info_created fi)"
    and "write_error w (baseline_file m) = None"
    and "\<not> read_denied w (baseline_file m)"
    and "baseline_file m' = baseline_file m"
  shows "\<exists>w'. create_baseline (stdlib digest) m w directory =
                (True, m\<lparr>baseline := py_of_state B\<rparr>, w') \<and>
     files w' (baseline_file m) = Some (json_dumps (py_of_state B)) \<and>
     load_baseline (stdlib digest) m' w' = Inr (True, m'\<lparr>baseline := py_of_state B\<rparr>, [])"
proof -
  let ?lib = "stdlib digest"
  let ?m = "m\<lparr>baseline := py_of_state B\<rparr>"
  let ?t = "json_dumps (py_of_state B)"
  let ?w' = "w\<lparr>files := (files w)(baseline_file m \<mapsto> ?t)\<rparr>"
  have d: "distinct (map fst B)" using scan_directory_inv [OF assms(1)] by simp
  have rt: "json_loads ?t = Inr (py_of_state B)"
    by (rule json_roundtrip [OF py_wf_py_of_state [OF d assms(3)]])
  have jd: "json_dump ?lib = json_dumps" and jl: "json_load ?lib = json_loads"
    by (simp_all add: stdlib_def)
  have rd: "read_text ?w' (baseline_file m) = Inr ?t"
    using assms(5) by (simp add: read_text_def)
  have s: "save_baseline_body ?lib ?m w = (Inr (), ?w')"
    using assms(4) rd rt by (simp add: save_baseline_body_def Let_def jd jl py_len_py_of_state)
  have c: "create_baseline ?lib m w directory = (True, ?m, ?w')"
    using assms(1,2) s by (simp add: create_baseline_def Let_def)
  have v: "validate_baseline (py_of_state B) = Inr ()"
    by (rule validate_baseline_ok [OF baseline_valid_py_of_state])
  have rd': "read_text ?w' (baseline_file m') = Inr ?t"
    using rd assms(6) by simp
  have l: "load_baseline ?lib m' ?w' = Inr (True, m'\<lparr>baseline := py_of_state B\<rparr>, [])"
    using assms(5,6) rd' rt v by (simp add: load_baseline_def load_baseline_body_def jl)
  show ?thesis
    by (rule exI [of _ ?w']) (use c l in simp)
qed

section \<open>The examples, evaluated\<close>

lemmas example_defs =
  example_world_def example_world_later_def example_tree_def example_tree_later_def
  example_monitor_def example_lib_def example_sha256_def readable_file_def secret_file_def
  big_file_def vanished_file_def init_monitor_def

lemmas scan_defs =
  scan_directory_def validate_directory_def get_file_info_def get_file_info_body_def
  calculate_hash_def calculate_hash_body_def startswith_def keep_dir_def basename_def sep_def

lemma scan_example:
  "scan_directory example_lib example_monitor example_world ''/srv/data'' = Inr example_baseline"
  by (simp add: example_defs scan_defs example_baseline_def)

lemma scan_example_later:
  "scan_directory example_lib (example_monitor\<lparr>baseline := b\<rparr>) example_world_later ''/srv/data''
     = Inr example_current"
  by (simp add: example_defs scan_defs example_current_def)

text \<open>
  The text that \<^verbatim>\<open>json.dump\<close> writes for the example baseline is the one the table of
  \<open>example_lib\<close> holds, and \<^verbatim>\<open>json.load\<close> reads it back.
\<close>

lemma replicate_numeral: "replicate (numeral k) x = x # replicate (pred_numeral k) x"
  by (simp add: numeral_eq_Suc)

lemma dumps_example: "json_dumps (py_of_state example_baseline) = example_text"
  by (simp add: json_dumps_def py_of_state_def py_of_info_def example_baseline_def
      example_text_def nl_def encode_string_def escape_char_def str_int_def str_nat_def
      float_body_def float_layout_def digits.simps digit_char_def char_of_eq_iff
      replicate_numeral)

lemma loads_example: "json_loads example_text = Inr (py_of_state example_baseline)"
proof -
  have "py_wf (py_of_state example_baseline)"
    by (simp add: py_of_state_def py_of_info_def example_baseline_def)
  from json_roundtrip [OF this] show ?thesis by (simp only: dumps_example)
qed

text \<open>
  C3, as stated, fails for the empty mapping: when the scan is empty, line 194 returns
  \<^verbatim>\<open>False\<close> before the baseline file is opened. With no baseline file, \<^verbatim>\<open>load_baseline\<close>
  then fails; with the file of an earlier baseline, it loads that one, which is not the
  empty mapping.
\<close>

theorem roundtrip_counterexample:
  "create_baseline (stdlib example_sha256) example_monitor example_world ''/srv/skipped'' =
     (False, example_monitor\<lparr>baseline := py_of_state []\<rparr>, example_world) \<and>
   load_baseline (stdlib example_sha256) example_monitor example_world =
     Inr (False, example_monitor, [''Baseline file not found: /srv/baseline.json'']) \<and>
   create_baseline (stdlib example_sha256) example_monitor
     (example_world\<lparr>files := [''/srv/baseline.json'' \<mapsto> example_text]\<rparr>) ''/srv/skipped'' =
     (False, example_monitor\<lparr>baseline := py_of_state []\<rparr>,
      example_world\<lparr>files := [''/srv/baseline.json'' \<mapsto> example_text]\<rparr>) \<and>
   load_baseline (stdlib example_sha256) example_monitor
     (example_world\<lparr>files := [''/srv/baseline.json'' \<mapsto> example_text]\<rparr>) =
     Inr (True, example_monitor\<lparr>baseline := py_of_state example_baseline\<rparr>, []) \<and>
   py_of_state example_baseline \<noteq> py_of_state []"
proof -
  let ?lib = "stdlib example_sha256"
  let ?w = "example_world\<lparr>files := [''/srv/baseline.json'' \<mapsto> example_text]\<rparr>"
  have s1: "scan_directory ?lib example_monitor example_world ''/srv/skipped'' = Inr []"
    by (simp add: example_defs scan_defs stdlib_def)
  have s2: "scan_directory ?lib example_monitor ?w ''/srv/skipped'' = Inr []"
    by (simp add: example_defs scan_defs stdlib_def)
  have c1: "create_baseline ?lib example_monitor example_world ''/srv/skipped'' =
      (False, example_monitor\<lparr>baseline := py_of_state []\<rparr>, example_world)"
    by (simp add: create_baseline_def s1)
  have c2: "create_baseline ?lib example_monitor ?w ''/srv/skipped'' =
      (False, example_monitor\<lparr>baseline := py_of_state []\<rparr>, ?w)"
    by (simp add: create_baseline_def s2)
  have l1: "load_baseline ?lib example_monitor example_world =
      Inr (False, example_monitor, [''Baseline file not found: /srv/baseline.json''])"
    by (simp add: load_baseline_def load_baseline_body_def example_monitor_def init_monitor_def
        example_world_def)
  have v: "validate_baseline (py_of_state example_baseline) = Inr ()"
    by (rule validate_baseline_ok [OF baseline_valid_py_of_state])
  have f: "baseline_file example_monitor = ''/srv/baseline.json''"
    by (simp add: example_monitor_def init_monitor_def)
  have jl: "json_load ?lib = json_loads" by (simp add: stdlib_def)
  have rd: "\<not> read_denied ?w ''/srv/baseline.json''" by (simp add: example_world_def)
  have l2: "load_baseline ?lib example_monitor ?w =
      Inr (True, example_monitor\<lparr>baseline := py_of_state example_baseline\<rparr>, [])"
    using rd by (simp add: load_baseline_def load_baseline_body_def read_text_def f jl
        loads_example v)
  have ne: "py_of_state example_baseline \<noteq> py_of_state []"
    by (simp add: py_of_state_def example_baseline_def)
  from c1 l1 c2 l2 ne show ?thesis by (intro conjI)
qed

theorem create_load_roundtrip_witness:
  "\<exists>w'. create_baseline (stdlib example_sha256) example_monitor example_world ''/srv/data'' =
           (True, example_monitor\<lparr>baseline := py_of_state example_baseline\<rparr>, w') \<and>
     files w' ''/srv/baseline.json'' = Some example_text \<and>
     load_baseline (stdlib example_sha256) example_monitor w' =
       Inr (True, example_monitor\<lparr>baseline := py_of_state example_baseline\<rparr>, [])"
proof -
  have 1: "scan_directory (stdlib example_sha256) example_monitor example_world ''/srv/data'' =
      Inr example_baseline"
    by (simp add: example_defs scan_defs example_baseline_def stdlib_def)
  have 2: "example_baseline \<noteq> []" by (simp add: example_baseline_def)
  have 3: "\<forall>(p, fi) \<in> set example_baseline.
      float_ok (info_modified fi) \<and> float_ok (info_created fi)"
    by (simp add: example_baseline_def)
  have 4: "write_error example_world (baseline_file example_monitor) = None"
    by (simp add: example_world_def)
  have 5: "\<not> read_denied example_world (baseline_file example_monitor)"
    by (simp add: example_world_def)
  have 6: "baseline_file example_monitor = baseline_file example_monitor" by simp
  have f: "baseline_file example_monitor = ''/srv/baseline.json''"
    by (simp add: example_monitor_def init_monitor_def)
  from create_load_roundtrip [OF 1 2 3 4 5 6] show ?thesis
    by (simp only: dumps_example f)
qed

theorem load_baseline_rejects_witness:
  "load_baseline example_lib example_monitor
     (example_world\<lparr>files := [''/srv/baseline.json'' \<mapsto> example_text_no_size]\<rparr>) =
     Inr (False, example_monitor\<lparr>baseline := example_no_size\<rparr>,
          [''Invalid baseline format: Missing required keys for a.txt'']) \<and>
   monitor_once example_lib example_monitor
     (example_world\<lparr>files := [''/srv/baseline.json'' \<mapsto> example_text_no_size]\<rparr>) ''/srv/data''
     = Inr None"
proof -
  let ?w = "example_world\<lparr>files := [''/srv/baseline.json'' \<mapsto> example_text_no_size]\<rparr>"
  have f: "baseline_file example_monitor = ''/srv/baseline.json''"
    by (simp add: example_monitor_def init_monitor_def)
  have 1: "files ?w (baseline_file example_monitor) = Some example_text_no_size"
    by (simp add: f)
  have 2: "\<not> read_denied ?w (baseline_file example_monitor)" by (simp add: example_world_def)
  have 3: "json_load example_lib example_text_no_size = Inr example_no_size"
    by (simp add: example_lib_def example_text_def example_text_no_size_def)
  have 4: "\<not> baseline_valid example_no_size"
    by (simp add: example_no_size_def required_keys_def)
  have v: "validate_baseline example_no_size =
      Inl (Exc ValueError ''Missing required keys for a.txt'')"
    by (simp add: example_no_size_def required_keys_def)
  from load_baseline_rejects [OF 1 2 3 4, of "''/srv/data''"] obtain msg where
    m: "validate_baseline example_no_size = Inl (Exc ValueError msg)"
    and l: "load_baseline example_lib example_monitor ?w =
       Inr (False, example_monitor\<lparr>baseline := example_no_size\<rparr>,
            [''Invalid baseline format: '' @ msg])"
    and o: "monitor_once example_lib example_monitor ?w ''/srv/data'' = Inr None"
    by (elim exE conjE)
  from m v have "msg = ''Missing required keys for a.txt''" by simp
  with l o show ?thesis by simp
qed

theorem check_changes_swallows_witness:
  "check_changes example_lib (example_monitor\<lparr>baseline := example_no_size\<rparr>)
     example_world_later ''/srv/data'' = Inr (\<lparr>modified = [], added = [], deleted = []\<rparr>, [])"
proof -
  let ?m = "example_monitor\<lparr>baseline := example_no_size\<rparr>"
  have 1: "scan_directory example_lib ?m example_world_later ''/srv/data'' = Inr example_current"
    by (rule scan_example_later)
  have 2: "check_changes_compare (ignore_files ?m) (baseline ?m) example_current =
      Inl (Exc KeyError ''size'')"
    by (simp add: example_monitor_def init_monitor_def example_no_size_def example_current_def
        basename_def sep_def)
  from check_changes_swallows [OF 1 2] show ?thesis by (rule conjunct1)
qed

theorem scan_directory_invalid_root_witness:
  "scan_directory example_lib example_monitor example_world ''/srv/missing'' = Inr [] \<and>
   validate_directory example_world ''/srv/missing'' =
     Inl (Exc ValueError ''Directory does not exist: /srv/missing'') \<and>
   scan_directory example_lib example_monitor example_world ''/srv/notes.txt'' = Inr [] \<and>
   validate_directory example_world ''/srv/notes.txt'' =
     Inl (Exc ValueError ''Path is not a directory: /srv/notes.txt'') \<and>
   scan_directory example_lib example_monitor example_world ''/srv/locked'' = Inr [] \<and>
   validate_directory example_world ''/srv/locked'' =
     Inl (Exc PermissionError ''No read permission for directory: /srv/locked'')"
proof -
  have 1: "\<forall>entries. dirs example_world ''/srv/missing'' \<noteq> Some (FsDir True entries)"
    by (simp add: example_world_def)
  have 2: "\<forall>entries. dirs example_world ''/srv/notes.txt'' \<noteq> Some (FsDir True entries)"
    by (simp add: example_world_def)
  have 3: "\<forall>entries. dirs example_world ''/srv/locked'' \<noteq> Some (FsDir True entries)"
    by (simp add: example_world_def)
  from scan_directory_invalid_root [OF 1, of example_lib example_monitor]
    scan_directory_invalid_root [OF 2, of example_lib example_monitor]
    scan_directory_invalid_root [OF 3, of example_lib example_monitor]
  show ?thesis by (simp add: example_world_def)
qed

theorem calculate_hash_skips_witness:
  "calculate_hash example_lib example_monitor vanished_file = Inr None \<and>
   calculate_hash example_lib example_monitor secret_file = Inr None \<and>
   calculate_hash example_lib example_monitor big_file = Inr None \<and>
   scan_files example_lib example_monitor ''baseline.json'' []
     [(''big.iso'', big_file), (''a.txt'', readable_file ''hello'' (Finite False 17 8) (Finite False 17 8))] [] =
   scan_files example_lib example_monitor ''baseline.json'' []
     [(''a.txt'', readable_file ''hello'' (Finite False 17 8) (Finite False 17 8))] []"
proof -
  have v: "getsize_res vanished_file =
      Inl (Exc FileNotFoundError ''[Errno 2] No such file or directory'') \<and>
      is_Exception (exc_class_of (Exc FileNotFoundError ''[Errno 2] No such file or directory''))"
    by (simp add: vanished_file_def)
  have s: "getsize_res secret_file = Inr 7 \<and>
      read_res secret_file = Inl (Exc PermissionError ''[Errno 13] Permission denied'') \<and>
      is_Exception (exc_class_of (Exc PermissionError ''[Errno 13] Permission denied''))"
    by (simp add: secret_file_def)
  have b: "getsize_res big_file = Inr (600 * 1024 * 1024) \<and>
      max_file_size example_monitor < 600 * 1024 * 1024"
    by (simp add: big_file_def example_monitor_def init_monitor_def)
  have st: "stat_res big_file =
      Inr \<lparr>st_size = 600 * 1024 * 1024, st_mtime = (Finite False 1700000004 0), st_ctime = (Finite False 1700000004 0)\<rparr>"
    by (simp add: big_file_def)
  have 1: "calculate_hash example_lib example_monitor vanished_file = Inr None"
    using calculate_hash_skips [of vanished_file example_lib example_monitor] v by blast
  have 2: "calculate_hash example_lib example_monitor secret_file = Inr None"
    using calculate_hash_skips [of secret_file example_lib example_monitor] s by blast
  have 3: "calculate_hash example_lib example_monitor big_file = Inr None"
    using calculate_hash_skips [of big_file example_lib example_monitor] b by blast
  have 4: "scan_files example_lib example_monitor ''baseline.json'' []
     [(''big.iso'', big_file), (''a.txt'', readable_file ''hello'' (Finite False 17 8) (Finite False 17 8))] [] =
   scan_files example_lib example_monitor ''baseline.json'' []
     [(''a.txt'', readable_file ''hello'' (Finite False 17 8) (Finite False 17 8))] []"
    using calculate_hash_skips [of big_file example_lib example_monitor _ _ "''baseline.json''"
        "[]" "''big.iso''" "[(''a.txt'', readable_file ''hello'' (Finite False 17 8) (Finite False 17 8))]" "[]"]
      3 st by blast
  from 1 2 3 4 show ?thesis by (intro conjI)
qed

theorem create_baseline_empty_scan_witness:
  "create_baseline example_lib example_monitor example_world ''/srv/locked'' =
     (False, example_monitor\<lparr>baseline := PDict []\<rparr>, example_world) \<and>
   create_baseline example_lib example_monitor example_world ''/srv/skipped'' =
     (False, example_monitor\<lparr>baseline := PDict []\<rparr>, example_world)"
proof -
  have 1: "scan_directory example_lib example_monitor example_world ''/srv/locked'' = Inr [] \<or>
     (\<exists>e. validate_directory example_world ''/srv/locked'' = Inl e)"
    by (simp add: example_world_def validate_directory_def)
  have 2: "scan_directory example_lib example_monitor example_world ''/srv/skipped'' = Inr [] \<or>
     (\<exists>e. validate_directory example_world ''/srv/skipped'' = Inl e)"
    by (simp add: example_defs scan_defs)
  from create_baseline_empty_scan [OF 1] create_baseline_empty_scan [OF 2]
  show ?thesis by (intro conjI)
qed

theorem ignored_and_hidden_never_reported_witness:
  "''.git/config'' \<notin> fst ` set example_baseline \<and>
   ''.git/config'' \<notin> fst ` set example_current \<and>
   ''fim.log'' \<notin> fst ` set example_baseline \<and>
   ''fim.log'' \<notin> fst ` set example_current \<and>
   (\<exists>ch. check_changes example_lib (example_monitor\<lparr>baseline := py_of_state example_baseline\<rparr>)
           example_world_later ''/srv/data'' = Inr (ch, example_current) \<and>
      ''.git/config'' \<notin> mod_file ` set (modified ch) \<and>
      ''.git/config'' \<notin> add_file ` set (added ch) \<and>
      ''.git/config'' \<notin> set (deleted ch) \<and>
      ''fim.log'' \<notin> mod_file ` set (modified ch) \<and>
      ''fim.log'' \<notin> add_file ` set (added ch) \<and>
      ''fim.log'' \<notin> set (deleted ch))"
proof -
  let ?m' = "example_monitor\<lparr>baseline := py_of_state example_baseline\<rparr>"
  have 1: "world_names_ok example_world ''/srv/data''"
    by (simp add: world_names_ok_def example_world_def example_tree_def sep_def)
  have 2: "world_names_ok example_world_later ''/srv/data''"
    by (simp add: world_names_ok_def example_world_later_def example_world_def
        example_tree_later_def sep_def)
  have 3: "scan_directory example_lib example_monitor example_world ''/srv/data'' =
      Inr example_baseline" by (rule scan_example)
  have 4: "scan_directory example_lib ?m' example_world_later ''/srv/data'' = Inr example_current"
    by (rule scan_example_later)
  have 5: "baseline ?m' = py_of_state example_baseline" by simp
  have 6: "ignore_files ?m' = ignore_files example_monitor" by simp
  have h: "basename ''.git/config'' \<in> ignore_files example_monitor \<or> in_hidden_dir ''.git/config''"
    by (simp add: in_hidden_dir_def startswith_def sep_def)
  have l: "basename ''fim.log'' \<in> ignore_files example_monitor \<or> in_hidden_dir ''fim.log''"
    by (simp add: example_monitor_def init_monitor_def basename_def sep_def)
  from ignored_and_hidden_never_reported [OF 1 2 3 4 5 6 h,
      where resolved_baseline_file = "''/srv/baseline.json''" and ignore_arg = None]
  obtain ch where r: "check_changes example_lib ?m' example_world_later ''/srv/data'' =
        Inr (ch, example_current)"
    and a: "''.git/config'' \<notin> fst ` set example_baseline"
      "''.git/config'' \<notin> fst ` set example_current"
      "''.git/config'' \<notin> mod_file ` set (modified ch)"
      "''.git/config'' \<notin> add_file ` set (added ch)"
      "''.git/config'' \<notin> set (deleted ch)"
    by (elim exE conjE)
  from ignored_and_hidden_never_reported [OF 1 2 3 4 5 6 l,
      where resolved_baseline_file = "''/srv/baseline.json''" and ignore_arg = None]
  obtain ch' where r': "check_changes example_lib ?m' example_world_later ''/srv/data'' =
        Inr (ch', example_current)"
    and b: "''fim.log'' \<notin> fst ` set example_baseline"
      "''fim.log'' \<notin> fst ` set example_current"
      "''fim.log'' \<notin> mod_file ` set (modified ch')"
      "''fim.log'' \<notin> add_file ` set (added ch')"
      "''fim.log'' \<notin> set (deleted ch')"
    by (elim exE conjE)
  from r r' have "ch' = ch" by simp
  with b have b': "''fim.log'' \<notin> mod_file ` set (modified ch)"
      "''fim.log'' \<notin> add_file ` set (added ch)"
      "''fim.log'' \<notin> set (deleted ch)" by simp_all
  show ?thesis
    by (intro conjI exI [of _ ch]) (fact r a b b')+
qed

theorem scan_records_have_hash_witness:
  "scan_directory example_lib example_monitor example_world ''/srv/data'' = Inr example_baseline \<and>
   calculate_hash example_lib example_monitor secret_file = Inr None \<and>
   ''secret.txt'' \<notin> fst ` set example_baseline \<and>
   calculate_hash example_lib example_monitor big_file = Inr None \<and>
   ''big.iso'' \<notin> fst ` set example_baseline"
proof -
  have s: "scan_directory example_lib example_monitor example_world ''/srv/data'' =
      Inr example_baseline" by (rule scan_example)
  have d: "dirs example_world ''/srv/data'' = Some example_tree"
    by (simp add: example_world_def)
  have n: "names_ok example_tree" by (simp add: example_tree_def sep_def)
  have u: "distinct (map fst (tree_files [] example_tree))" by (simp add: example_tree_def)
  have f1: "([''secret.txt''], secret_file) \<in> set (tree_files [] example_tree)"
    by (simp add: example_tree_def)
  have f2: "([''big.iso''], big_file) \<in> set (tree_files [] example_tree)"
    by (simp add: example_tree_def)
  have c1: "calculate_hash example_lib example_monitor secret_file = Inr None"
    by (simp add: calculate_hash_def calculate_hash_body_def secret_file_def
        example_monitor_def init_monitor_def)
  have c2: "calculate_hash example_lib example_monitor big_file = Inr None"
    by (simp add: calculate_hash_def calculate_hash_body_def big_file_def
        example_monitor_def init_monitor_def)
  from scan_records_have_hash [OF s] have
    g: "\<forall>node path f. dirs example_world ''/srv/data'' = Some node \<and> names_ok node \<and>
       distinct (map fst (tree_files [] node)) \<and> (path, f) \<in> set (tree_files [] node) \<and>
       calculate_hash example_lib example_monitor f = Inr None \<longrightarrow>
       path_join path \<notin> fst ` set example_baseline" by (rule conjunct2)
  from g d n u f1 c1 have "path_join [''secret.txt''] \<notin> fst ` set example_baseline" by blast
  then have a1: "''secret.txt'' \<notin> fst ` set example_baseline" by simp
  from g d n u f2 c2 have "path_join [''big.iso''] \<notin> fst ` set example_baseline" by blast
  then have a2: "''big.iso'' \<notin> fst ` set example_baseline" by simp
  from s c1 a1 c2 a2 show ?thesis by (intro conjI)
qed

theorem check_changes_classifies_witness:
  "check_changes example_lib (example_monitor\<lparr>baseline := py_of_state example_baseline\<rparr>)
     example_world_later ''/srv/data'' =
     Inr (\<lparr>modified =
            [\<lparr>mod_file = ''a.txt'',
              old_hash = PStr ''2cf24dba5fb0a30e26e83b2ac5b9e29e1b161e5c1fa7425e73043362938b9824'',
              new_hash = ''3733cd977ff8eb18b987357e22ced99f46097f31ecb239e878ae63760e83e4d5'',
              old_size = PInt 5, new_size = 5\<rparr>],
          added =
            [\<lparr>add_file = ''c.txt'',
              add_hash = ''11507a0e2f5e69d5dfa40a62a1bd7b6ee57e6bcd85c67c9b8431b36fff21c437'',
              add_size = 3\<rparr>],
          deleted = [''b.txt'']\<rparr>, example_current)"
proof -
  let ?m = "example_monitor\<lparr>baseline := py_of_state example_baseline\<rparr>"
  let ?bl = "map (\<lambda>(p, fi). (p, py_of_info fi)) example_baseline"
  have b: "baseline ?m = PDict ?bl" by (simp add: py_of_state_def)
  have v: "\<forall>(p, info) \<in> set ?bl. has_key info ''hash'' \<and> has_key info ''size''"
    by (simp add: example_baseline_def has_key_def py_of_info_def)
  have d: "distinct (map fst ?bl)" by (simp add: example_baseline_def)
  have s: "scan_directory example_lib ?m example_world_later ''/srv/data'' = Inr example_current"
    by (rule scan_example_later)
  have "check_changes example_lib ?m example_world_later ''/srv/data'' =
      Inr (diff (ignore_files ?m) ?bl example_current, example_current)"
    using check_changes_classifies [OF b v d s] by (rule conjunct1)
  then show ?thesis
    by (simp add: diff_def example_baseline_def example_current_def example_monitor_def
        init_monitor_def py_get_def py_of_info_def basename_def sep_def)
qed

text \<open>
  C2, as stated, fails: a baseline path whose basename is in the ignore set is skipped
  by line 293, so \<^verbatim>\<open>notes.txt\<close>, ignored, in the baseline and gone from the directory,
  is in the union of the keys, is not an equal-hash member of both mappings, and is in
  none of the three sequences that \<^verbatim>\<open>check_changes\<close> returns.
\<close>

theorem partition_counterexample:
  "''notes.txt'' \<in> fst ` set ((''notes.txt'', py_of_info (snd (hd example_baseline))) #
       map (\<lambda>(p, fi). (p, py_of_info fi)) example_current) \<and>
   ''notes.txt'' \<notin> fst ` set example_current \<and>
   check_changes example_lib
     ((init_monitor ''/srv/baseline.json'' (Some [''notes.txt'']))
        \<lparr>baseline := PDict ((''notes.txt'', py_of_info (snd (hd example_baseline))) #
            map (\<lambda>(p, fi). (p, py_of_info fi)) example_current)\<rparr>)
     example_world_later ''/srv/data'' =
     Inr (\<lparr>modified = [], added = [], deleted = []\<rparr>, example_current)"
proof -
  let ?m = "(init_monitor ''/srv/baseline.json'' (Some [''notes.txt'']))
        \<lparr>baseline := PDict ((''notes.txt'', py_of_info (snd (hd example_baseline))) #
            map (\<lambda>(p, fi). (p, py_of_info fi)) example_current)\<rparr>"
  have s: "scan_directory example_lib ?m example_world_later ''/srv/data'' = Inr example_current"
    by (simp add: example_defs scan_defs example_current_def)
  have c: "check_changes_compare (ignore_files ?m) (baseline ?m) example_current =
      Inr \<lparr>modified = [], added = [], deleted = []\<rparr>"
    by (simp add: init_monitor_def example_current_def example_baseline_def py_of_info_def
        empty_changes_def basename_def sep_def)
  have r: "check_changes example_lib ?m example_world_later ''/srv/data'' =
     Inr (\<lparr>modified = [], added = [], deleted = []\<rparr>, example_current)"
    by (simp only: check_changes_def s c sum.case prod.case)
  have k: "''notes.txt'' \<notin> fst ` set example_current" by (simp add: example_current_def)
  show ?thesis using r k by simp
qed

theorem changes_partition_witness:
  "\<exists>ch. check_changes example_lib (example_monitor\<lparr>baseline := py_of_state example_baseline\<rparr>)
          example_world_later ''/srv/data'' = Inr (ch, example_current) \<and>
     mod_file ` set (modified ch) = {''a.txt''} \<and>
     add_file ` set (added ch) = {''c.txt''} \<and>
     set (deleted ch) = {''b.txt''}"
proof -
  let ?m = "example_monitor\<lparr>baseline := py_of_state example_baseline\<rparr>"
  let ?bl = "map (\<lambda>(p, fi). (p, py_of_info fi)) example_baseline"
  have b: "baseline ?m = PDict ?bl" by (simp add: py_of_state_def)
  have v: "\<forall>(p, info) \<in> set ?bl. has_key info ''hash'' \<and> has_key info ''size''"
    by (simp add: example_baseline_def has_key_def py_of_info_def)
  have d: "distinct (map fst ?bl)" by (simp add: example_baseline_def)
  have s: "scan_directory example_lib ?m example_world_later ''/srv/data'' = Inr example_current"
    by (rule scan_example_later)
  from changes_partition [OF b v d s]
  obtain ch where run: "check_changes example_lib ?m example_world_later ''/srv/data'' =
      Inr (ch, example_current)"
    by (elim exE conjE)
  have dc: "distinct (map fst example_current)" by (simp add: example_current_def)
  have "check_changes example_lib ?m example_world_later ''/srv/data'' =
      Inr (diff (ignore_files ?m) ?bl example_current, example_current)"
    using s b compare_spec [OF v dc, of "ignore_files ?m"] by (simp add: check_changes_def)
  with run have "ch = diff (ignore_files ?m) ?bl example_current" by simp
  then have "mod_file ` set (modified ch) = {''a.txt''} \<and>
     add_file ` set (added ch) = {''c.txt''} \<and> set (deleted ch) = {''b.txt''}"
    by (simp add: diff_def example_baseline_def example_current_def example_monitor_def
        init_monitor_def py_get_def py_of_info_def basename_def sep_def)
  with run show ?thesis by (intro exI [of _ ch] conjI) simp_all
qed

end
